theory Spec2Isabelle
  imports Complex_Main
begin

section \<open>The point queues of robustunwrap.cpp\<close>

text \<open>
  The program keeps \<open>NUMQUEUES\<close> circular buffers in the static arrays \<open>m_bot\<close>, \<open>m_top\<close>,
  \<open>m_size\<close>, \<open>m_chunk\<close>, \<open>m_sizeb\<close> and \<open>m_q\<close>. One queue is the record of the six entries at
  one index. The byte buffer \<open>m_q[queuenum]\<close> is read and written only in whole chunks of
  \<open>m_chunk\<close> bytes at offsets that are multiples of \<open>m_chunk\<close>, so it is modelled as a list of
  cells. A cell that was never stored to holds \<open>None\<close> (storage fresh from \<open>new char[]\<close> is
  indeterminate), and the null pointer is \<open>None\<close> at the level of the buffer.
  \<open>operator new\<close> reports failure by throwing, never by returning null, so the two
  \<open>return(-1)\<close> branches of \<open>Push\<close> are not reachable and allocation is modelled as
  succeeding; \<open>Push\<close> still returns its status.
\<close>

definition NUMQUEUES :: nat where "NUMQUEUES = 10000"
definition DEFAULTBLOCK :: nat where "DEFAULTBLOCK = 100"
definition BLOCKINCREMENT :: nat where "BLOCKINCREMENT = 500"

record 'a queue =
  m_bot :: nat
  m_top :: nat
  m_size :: nat
  m_chunk :: nat
  m_sizeb :: nat
  m_q :: "'a option list option"

definition InitQueue :: "nat \<Rightarrow> 'a queue" where
  "InitQueue chunk =
     \<lparr>m_bot = 0, m_top = 0, m_size = DEFAULTBLOCK, m_chunk = chunk,
      m_sizeb = DEFAULTBLOCK * chunk, m_q = None\<rparr>"

definition TerminateQueue :: "'a queue \<Rightarrow> 'a queue" where
  "TerminateQueue q = q\<lparr>m_q := None\<rparr>"

text \<open>
  \<open>Push\<close>: allocate the buffer on first use, store the record at \<open>m_top\<close>, advance \<open>m_top\<close>
  with wrap-around, and when it has caught up with \<open>m_bot\<close> move everything into a buffer
  \<open>BLOCKINCREMENT\<close> cells longer: first the cells from \<open>m_bot\<close> to the end, then the cells
  below \<open>m_top\<close>. (The local \<open>stacksize\<close> is computed and never used.)
\<close>

definition Push :: "'a queue \<Rightarrow> 'a \<Rightarrow> int \<times> 'a queue" where
  "Push q x =
     (let buf = (case m_q q of None \<Rightarrow> replicate (m_size q) None | Some b \<Rightarrow> b);
          buf1 = buf[m_top q := Some x];
          top1 = m_top q + 1;
          top2 = (if top1 = m_size q then 0 else top1)
      in if top2 = m_bot q then
           (let newsize = m_size q + BLOCKINCREMENT;
                newsizeb = newsize * m_chunk q;
                abovebot = m_size q - m_bot q;
                newq = take abovebot (drop (m_bot q) buf1) @ take top2 buf1
                       @ replicate (newsize - abovebot - top2) None
            in (0, q\<lparr>m_bot := 0, m_top := m_size q, m_size := newsize,
                      m_sizeb := newsizeb, m_q := Some newq\<rparr>))
         else (0, q\<lparr>m_top := top2, m_q := Some buf1\<rparr>))"

text \<open>
  \<open>Pop\<close> returns 1 on an empty queue and leaves its argument alone; otherwise it copies the
  cell at \<open>m_bot\<close> out and advances \<open>m_bot\<close> with wrap-around.
\<close>

definition cell_at :: "'a option list option \<Rightarrow> nat \<Rightarrow> 'a option" where
  "cell_at mq i = (case mq of None \<Rightarrow> None
                   | Some b \<Rightarrow> if i < length b then b ! i else None)"

definition Pop :: "'a queue \<Rightarrow> int \<times> 'a option \<times> 'a queue" where
  "Pop q =
     (if m_bot q = m_top q then (1, None, q)
      else (let x = cell_at (m_q q) (m_bot q);
                bot1 = m_bot q + 1;
                bot2 = (if bot1 = m_size q then 0 else bot1)
            in (0, x, q\<lparr>m_bot := bot2\<rparr>)))"

subsection \<open>What a queue holds\<close>

definition qcells :: "'a queue \<Rightarrow> 'a option list" where
  "qcells q =
     (case m_q q of None \<Rightarrow> []
      | Some b \<Rightarrow>
          if m_bot q \<le> m_top q then take (m_top q - m_bot q) (drop (m_bot q) b)
          else drop (m_bot q) b @ take (m_top q) b)"

definition qcontents :: "'a queue \<Rightarrow> 'a list" where
  "qcontents q = map the (qcells q)"

definition qinv :: "'a queue \<Rightarrow> bool" where
  "qinv q \<longleftrightarrow>
     m_bot q < m_size q \<and> m_top q < m_size q \<and>
     (case m_q q of None \<Rightarrow> m_bot q = m_top q
      | Some b \<Rightarrow> length b = m_size q \<and> None \<notin> set (qcells q))"

subsection \<open>Sequences of queue operations\<close>

datatype 'a qop = PushOp 'a | PopOp

fun run_ops :: "'a queue \<Rightarrow> 'a qop list \<Rightarrow> (int \<times> 'a option) list" where
  "run_ops q [] = []"
| "run_ops q (PushOp x # ops) = run_ops (snd (Push q x)) ops"
| "run_ops q (PopOp # ops) =
     (case Pop q of (rc, c, q') \<Rightarrow> (rc, c) # run_ops q' ops)"

text \<open>The specification's queue: a list, appended to at the back and read at the front.\<close>

fun spec_fifo :: "'a list \<Rightarrow> 'a qop list \<Rightarrow> (int \<times> 'a option) list" where
  "spec_fifo xs [] = []"
| "spec_fifo xs (PushOp x # ops) = spec_fifo (xs @ [x]) ops"
| "spec_fifo [] (PopOp # ops) = (1, None) # spec_fifo [] ops"
| "spec_fifo (y # ys) (PopOp # ops) = (0, Some y) # spec_fifo ys ops"

fun push_all :: "'a queue \<Rightarrow> 'a list \<Rightarrow> 'a queue" where
  "push_all q [] = q"
| "push_all q (x # xs) = push_all (snd (Push q x)) xs"

text \<open>A growth event is a \<open>Push\<close> that leaves the queue with another capacity.\<close>

fun growth_events :: "'a queue \<Rightarrow> 'a list \<Rightarrow> nat" where
  "growth_events q [] = 0"
| "growth_events q (x # xs) =
     (if m_size (snd (Push q x)) \<noteq> m_size q then 1 else 0)
     + growth_events (snd (Push q x)) xs"

fun pop_n :: "nat \<Rightarrow> 'a queue \<Rightarrow> (int \<times> 'a option) list" where
  "pop_n 0 q = []"
| "pop_n (Suc n) q = (case Pop q of (rc, c, q') \<Rightarrow> (rc, c) # pop_n n q')"


section \<open>The unwrapping code\<close>

text \<open>
  Numbers. The program computes on \<open>float\<close> and \<open>double\<close>; here every such value is a real
  number and every operation is exact, so the conversions between \<open>float\<close> and \<open>double\<close>
  are the identity and the literals \<open>3.14159265358979\<close>, \<open>1.00001\<close> and \<open>1e38\<close> denote the
  decimals they spell. \<open>int\<close> and \<open>long\<close> values are mathematical integers: the conversion
  \<open>int(x)\<close> truncates toward zero and is taken to stay in range, as are the products of the
  grid dimensions.
\<close>

definition PI :: real where
  "PI = 314159265358979 / 100000000000000"

definition c_int :: "real \<Rightarrow> int" where
  "c_int r = (if 0 \<le> r then \<lfloor>r\<rfloor> else \<lceil>r\<rceil>)"

definition c_div :: "int \<Rightarrow> int \<Rightarrow> int" where
  "c_div a b = sgn a * sgn b * (\<bar>a\<bar> div \<bar>b\<bar>)"

record QUEUEENTRY =
  qe_x :: int
  qe_y :: int
  qe_z :: int
  qe_p :: int
  qe_v :: real

definition sizeof_QUEUEENTRY :: nat where
  "sizeof_QUEUEENTRY = 32"

text \<open>
  Memory. The \<open>float\<close> buffers (the caller's three and the private copy of the magnitude)
  live in a store, a list of buffers addressed by position, so that two pointers may name
  the same buffer and \<open>new float[]\<close> is the next free position. An access outside the buffer
  it goes to, which C++ leaves undefined, ends the run with a fault that names the buffer
  and the index; the fault carries the state reached.
\<close>

datatype buffer = Phase | Mag | MagInput | Unwrapped | Flag | Thresholds | QueueTable

datatype fault = OutOfBounds buffer int | Uninitialised

text \<open>
  The variables set up by \<open>robustUnwrapMain\<close> and only read by \<open>unwrap\<close> and \<open>Check\<close>.
\<close>

record globals =
  dim0 :: int
  dim1 :: int
  dim2 :: int
  sze :: nat
  phase :: nat
  mag :: nat
  unwrapped :: nat
  m_bsx :: int
  m_bsy :: int
  m_bsz :: int

text \<open>
  The state that a run changes. \<open>gerror_log\<close> and \<open>stores\<close> are not program variables:
  the first collects the messages handed to \<open>GERROR\<close>, the second the indices of the
  stores into \<open>unwrapped[]\<close> in the order in which they happen.
\<close>

record ustate =
  errcode :: int
  heap :: "real list list"
  flag :: "bool list"
  queues :: "nat \<Rightarrow> QUEUEENTRY queue"
  gerror_log :: "string list"
  stores :: "int list"

type_synonym outcome = "(fault \<times> ustate) + ustate"

definition rd :: "real list list \<Rightarrow> nat \<Rightarrow> int \<Rightarrow> real option" where
  "rd h a i =
     (if a < length h \<and> 0 \<le> i \<and> i < int (length (h ! a)) then Some (h ! a ! nat i)
      else None)"

definition wr :: "real list list \<Rightarrow> nat \<Rightarrow> int \<Rightarrow> real \<Rightarrow> real list list option" where
  "wr h a i v =
     (if a < length h \<and> 0 \<le> i \<and> i < int (length (h ! a))
      then Some (h[a := (h ! a)[nat i := v]]) else None)"

definition store_unwrapped :: "globals \<Rightarrow> int \<Rightarrow> real \<Rightarrow> ustate \<Rightarrow> outcome" where
  "store_unwrapped g i v s =
     (case wr (heap s) (unwrapped g) i v of
        None \<Rightarrow> Inl (OutOfBounds Unwrapped i, s)
      | Some h \<Rightarrow> Inr (s\<lparr>heap := h, stores := stores s @ [i]\<rparr>))"

definition set_flag :: "int \<Rightarrow> ustate \<Rightarrow> outcome" where
  "set_flag i s =
     (if 0 \<le> i \<and> i < int (length (flag s)) then Inr (s\<lparr>flag := (flag s)[nat i := True]\<rparr>)
      else Inl (OutOfBounds Flag i, s))"

definition then_do :: "outcome \<Rightarrow> (ustate \<Rightarrow> outcome) \<Rightarrow> outcome" where
  "then_do r f = (case r of Inl e \<Rightarrow> Inl e | Inr s \<Rightarrow> f s)"

text \<open>
  Modelled from the spec: \<open>GERROR\<close> comes from \<open>log.h\<close>, which is not among the sources. The
  specification has errors reported to an external logging collaborator without stopping
  the function, so \<open>GERROR\<close> records its message and returns.
\<close>

definition GERROR :: "string \<Rightarrow> ustate \<Rightarrow> ustate" where
  "GERROR msg s = s\<lparr>gerror_log := gerror_log s @ [msg]\<rparr>"

definition raiseerror :: "string \<Rightarrow> ustate \<Rightarrow> ustate" where
  "raiseerror msg s = (GERROR msg s)\<lparr>errcode := 1\<rparr>"

text \<open>
  \<open>Check\<close>: the bounds test on the three coordinates, the visited test, the unwrapping of
  the neighbour against the value \<open>qe->v\<close>, the two stores and the \<open>Push\<close>.
\<close>

definition unwrap_value :: "real \<Rightarrow> real \<Rightarrow> real" where
  "unwrap_value ph v =
     (let wholepis = c_int ((ph - v) / PI)
      in if wholepis \<ge> 1 then ph - 2 * PI * of_int (c_div (wholepis + 1) 2)
         else if wholepis \<le> - 1 then ph + 2 * PI * of_int (c_div (1 - wholepis) 2)
         else ph)"

definition Check :: "globals \<Rightarrow> nat \<Rightarrow> QUEUEENTRY \<Rightarrow> int \<Rightarrow> int \<Rightarrow> int \<Rightarrow> int \<Rightarrow> ustate \<Rightarrow> outcome" where
  "Check g primaryqueuenum qe offp offx offy offz s =
     (let nx = qe_x qe + offx in
      if nx < 0 \<or> nx \<ge> dim0 g then Inr s else
      let ny = qe_y qe + offy in
      if ny < 0 \<or> ny \<ge> dim1 g then Inr s else
      let nz = qe_z qe + offz in
      if nz < 0 \<or> nz \<ge> dim2 g then Inr s else
      let np = qe_p qe + offp in
      if \<not> (0 \<le> np \<and> np < int (length (flag s))) then Inl (OutOfBounds Flag np, s) else
      if flag s ! nat np then Inr s else
      (case rd (heap s) (phase g) np of
         None \<Rightarrow> Inl (OutOfBounds Phase np, s)
       | Some ph \<Rightarrow>
           (let nv = unwrap_value ph (qe_v qe);
                nqe = \<lparr>qe_x = nx, qe_y = ny, qe_z = nz, qe_p = np, qe_v = nv\<rparr>
            in then_do (store_unwrapped g np nv s) (\<lambda>s1.
               then_do (set_flag np s1) (\<lambda>s2.
                 (case Push (queues s2 primaryqueuenum) nqe of (rc, q') \<Rightarrow>
                    (let s3 = s2\<lparr>queues := (queues s2)(primaryqueuenum := q')\<rparr>
                     in Inr (if rc \<noteq> 0 then raiseerror ''Out of memory!'' s3 else s3))))))))"

text \<open>
  The forward scan \<open>while (mag[qe.p]>polefieldthresholds[++ind]);\<close>, started with \<open>ind\<close>
  already incremented. It reads one threshold per round; reading at the length of the array
  is the out-of-range read, returned as \<open>None\<close>.
\<close>

function scan :: "real \<Rightarrow> real list \<Rightarrow> nat \<Rightarrow> nat option" where
  "scan m thr ind =
     (if ind < length thr then (if m > thr ! ind then scan m thr (Suc ind) else Some ind)
      else None)"
  by pat_completeness auto
termination
  by (relation "measure (\<lambda>(m, thr, ind). length thr - ind)") auto

declare scan.simps [simp del]

text \<open>The six calls of \<open>Check\<close> for an accepted record, in the order of the source.\<close>

definition expand :: "globals \<Rightarrow> nat \<Rightarrow> QUEUEENTRY \<Rightarrow> ustate \<Rightarrow> outcome" where
  "expand g i qe s =
     then_do (Check g i qe (m_bsz g) 0 0 1 s) (\<lambda>s.
     then_do (Check g i qe (- m_bsz g) 0 0 (- 1) s) (\<lambda>s.
     then_do (Check g i qe (m_bsy g) 0 1 0 s) (\<lambda>s.
     then_do (Check g i qe (- m_bsy g) 0 (- 1) 0 s) (\<lambda>s.
     then_do (Check g i qe (m_bsx g) 1 0 0 s) (\<lambda>s.
     Check g i qe (- m_bsx g) (- 1) 0 0 s)))))"

text \<open>
  The body of the \<open>while\<close> loop of \<open>unwrap\<close> for the record just popped: defer it to a later
  queue, or check its six neighbours. (The counters \<open>voxdef\<close> and \<open>voxdone\<close> are written and
  never read.)
\<close>

definition visit :: "globals \<Rightarrow> real list \<Rightarrow> nat \<Rightarrow> QUEUEENTRY option \<Rightarrow> ustate \<Rightarrow> outcome" where
  "visit g thr i cell s =
     (case cell of
        None \<Rightarrow> Inl (Uninitialised, s)
      | Some qe \<Rightarrow>
         (case rd (heap s) (mag g) (qe_p qe) of
            None \<Rightarrow> Inl (OutOfBounds Mag (qe_p qe), s)
          | Some m \<Rightarrow>
             if \<not> i < length thr then Inl (OutOfBounds Thresholds (int i), s)
             else if m > thr ! i then
               (case scan m thr (Suc i) of
                  None \<Rightarrow> Inl (OutOfBounds Thresholds (int (length thr)), s)
                | Some ind \<Rightarrow>
                    Inr (s\<lparr>queues := (queues s)(ind := snd (Push (queues s ind) qe))\<rparr>))
             else expand g i qe s))"

text \<open>
  The loop \<open>while (!errcode && !Pop(i,&qe))\<close>. It need not end for every state, so it is
  a partial function: \<open>None\<close> is the run that does not return.
\<close>

partial_function (option) drain :: "globals \<Rightarrow> real list \<Rightarrow> nat \<Rightarrow> ustate \<Rightarrow> outcome option" where
  "drain g thr i s =
     (if errcode s \<noteq> 0 then Some (Inr s)
      else (case Pop (queues s i) of (rc, cell, q') \<Rightarrow>
              if rc \<noteq> 0 then Some (Inr s)
              else (case visit g thr i cell (s\<lparr>queues := (queues s)(i := q')\<rparr>) of
                      Inl e \<Rightarrow> Some (Inl e)
                    | Inr s' \<Rightarrow> drain g thr i s')))"

declare drain.simps [code]

text \<open>
  The loop over the bins, given the bins still to do: drain the bin, release its queue,
  leave when \<open>errcode\<close> is set.
\<close>

fun bins :: "globals \<Rightarrow> real list \<Rightarrow> nat list \<Rightarrow> ustate \<Rightarrow> outcome option" where
  "bins g thr [] s = Some (Inr s)"
| "bins g thr (i # is) s =
     (case drain g thr i s of
        None \<Rightarrow> None
      | Some (Inl e) \<Rightarrow> Some (Inl e)
      | Some (Inr s1) \<Rightarrow>
          (let s2 = s1\<lparr>queues := (queues s1)(i := TerminateQueue (queues s1 i))\<rparr>
           in if errcode s2 \<noteq> 0 then Some (Inr s2) else bins g thr is s2))"

text \<open>The first loop of \<open>unwrap\<close>, over the magnitudes read.\<close>

definition minmax :: "real list \<Rightarrow> real \<times> real" where
  "minmax ms =
     foldl (\<lambda>(mn, mx) m. ((if m < mn then m else mn), (if m > mx then m else mx)))
       (10 ^ 38, 0) ms"

definition polefieldthresholds :: "real \<Rightarrow> real \<Rightarrow> nat \<Rightarrow> real list" where
  "polefieldthresholds mn diff N = map (\<lambda>i. mn + diff * real i / real (N - 1)) [0..<N]"

text \<open>
  \<open>unwrap\<close>. The array \<open>flag\<close> is released at the end; the model keeps its last contents,
  which say which voxels the run reached. The queue arrays have \<open>NUMQUEUES\<close> entries, and
  initialising more queues than that is a fault.
\<close>

definition unwrap :: "globals \<Rightarrow> int \<Rightarrow> int \<Rightarrow> int \<Rightarrow> int \<Rightarrow> ustate \<Rightarrow> outcome option" where
  "unwrap g seedx seedy seedz UNWRAPBINS s0 =
     (let s1 = s0\<lparr>errcode := 0\<rparr>;
          N = nat (if UNWRAPBINS < 2 then 2 else UNWRAPBINS)
      in if sze g \<noteq> 0 \<and> \<not> (mag g < length (heap s1) \<and> sze g \<le> length (heap s1 ! mag g))
         then Some (Inl (OutOfBounds Mag
                 (if mag g < length (heap s1) then int (length (heap s1 ! mag g)) else 0), s1))
         else
      (case minmax (take (sze g) (heap s1 ! mag g)) of (mn, mx) \<Rightarrow>
       let diff = (100001 / 100000) * (mx - mn);
           seedp = seedx + dim0 g * (seedy + dim1 g * seedz);
           s2 = s1\<lparr>flag := replicate (sze g) False\<rparr>
       in if N > NUMQUEUES then Some (Inl (OutOfBounds QueueTable (int NUMQUEUES), s2)) else
       let s3 = s2\<lparr>queues := (\<lambda>i. if i < N then InitQueue sizeof_QUEUEENTRY else queues s2 i)\<rparr>
       in (case rd (heap s3) (phase g) 85 of
             None \<Rightarrow> Some (Inl (OutOfBounds Phase 85, s3))
           | Some v85 \<Rightarrow>
          (case store_unwrapped g 85 v85 s3 of
             Inl e \<Rightarrow> Some (Inl e)
           | Inr s4 \<Rightarrow>
          (case rd (heap s4) (phase g) seedp of
             None \<Rightarrow> Some (Inl (OutOfBounds Phase seedp, s4))
           | Some v \<Rightarrow>
          (let qe = \<lparr>qe_x = seedx, qe_y = seedy, qe_z = seedz, qe_p = seedp, qe_v = v\<rparr>
           in (case then_do (store_unwrapped g seedp v s4) (set_flag seedp) of
                 Inl e \<Rightarrow> Some (Inl e)
               | Inr s5 \<Rightarrow>
                  (let s6 = s5\<lparr>queues := (queues s5)(0 := snd (Push (queues s5 0) qe))\<rparr>;
                       thr = polefieldthresholds mn diff N
                   in bins g thr [0..<N] s6))))))))"

text \<open>
  \<open>robustUnwrapMain\<close>. The dimensions are the first three entries of \<open>dims\<close>; the pointers
  \<open>phaseIn\<close>, \<open>magIn\<close> and \<open>output\<close> are addresses in the store. \<open>round\<close> rounds halves away
  from zero, so \<open>round(d/2.0)\<close> is \<open>(d + 1) div 2\<close> for a dimension \<open>d\<close>.
\<close>

definition default_seed :: "nat \<Rightarrow> int" where
  "default_seed d = int ((d + 1) div 2) - 1"

definition robustUnwrapMain :: "nat \<times> nat \<times> nat \<Rightarrow> nat \<Rightarrow> nat \<Rightarrow> nat \<Rightarrow> int \<Rightarrow> ustate \<Rightarrow> outcome option" where
  "robustUnwrapMain dims phaseIn magIn output numunwrapbins s0 =
     (case dims of (d0, d1, d2) \<Rightarrow>
      let seedx = default_seed d0;
          seedy = default_seed d1;
          seedz = default_seed d2;
          sz = d0 * d1 * d2;
          s1 = (if seedx < 0 \<or> seedx \<ge> int d0 \<or> seedy < 0 \<or> seedy \<ge> int d1
                   \<or> seedz < 0 \<or> seedz \<ge> int d2
                then GERROR ''The seed specified was outside the matrix bounds.'' s0 else s0)
      in if sz \<noteq> 0 \<and> \<not> (magIn < length (heap s1) \<and> sz \<le> length (heap s1 ! magIn))
         then Some (Inl (OutOfBounds MagInput
                 (if magIn < length (heap s1) then int (length (heap s1 ! magIn)) else 0), s1))
         else
      (let s2 = s1\<lparr>heap := heap s1 @ [map uminus (take sz (heap s1 ! magIn))]\<rparr>;
           g = \<lparr>dim0 = int d0, dim1 = int d1, dim2 = int d2, sze = sz,
                phase = phaseIn, mag = length (heap s1), unwrapped = output,
                m_bsx = 1, m_bsy = int d0, m_bsz = int d0 * int d1\<rparr>
       in unwrap g seedx seedy seedz numunwrapbins s2))"


section \<open>Notions used to state the properties\<close>


text \<open>
  The variables as \<open>robustUnwrapMain\<close> sets them for a grid with positive dimensions.
\<close>

definition valid_globals :: "globals \<Rightarrow> bool" where
  "valid_globals g \<longleftrightarrow>
     0 < dim0 g \<and> 0 < dim1 g \<and> 0 < dim2 g \<and> int (sze g) = dim0 g * dim1 g * dim2 g \<and>
     m_bsx g = 1 \<and> m_bsy g = dim0 g \<and> m_bsz g = dim0 g * dim1 g"

text \<open>A queue record whose coordinates lie in the grid and whose offset is theirs.\<close>

definition entry_ok :: "globals \<Rightarrow> QUEUEENTRY \<Rightarrow> bool" where
  "entry_ok g e \<longleftrightarrow>
     0 \<le> qe_x e \<and> qe_x e < dim0 g \<and> 0 \<le> qe_y e \<and> qe_y e < dim1 g \<and>
     0 \<le> qe_z e \<and> qe_z e < dim2 g \<and>
     qe_p e = qe_x e + dim0 g * (qe_y e + dim1 g * qe_z e)"

definition off_ok :: "globals \<Rightarrow> int \<Rightarrow> int \<Rightarrow> int \<Rightarrow> int \<Rightarrow> bool" where
  "off_ok g offp offx offy offz \<longleftrightarrow> offp = offx + dim0 g * (offy + dim1 g * offz)"

text \<open>
  The states of a run on the wrapped phases \<open>ph\<close> and the risks \<open>mg\<close> with thresholds \<open>thr\<close>:
  the output buffer is neither of the two buffers read, every queue in use is a
  well-formed circular buffer, and every record waiting in one names a voxel of the grid
  that is marked visited and carries the value stored for it.
\<close>

definition wf_state :: "globals \<Rightarrow> real list \<Rightarrow> real list \<Rightarrow> real list \<Rightarrow> ustate \<Rightarrow> bool" where
  "wf_state g ph mg thr s \<longleftrightarrow>
     errcode s = 0 \<and> length (flag s) = sze g \<and>
     phase g < length (heap s) \<and> mag g < length (heap s) \<and> unwrapped g < length (heap s) \<and>
     unwrapped g \<noteq> phase g \<and> unwrapped g \<noteq> mag g \<and>
     heap s ! phase g = ph \<and> heap s ! mag g = mg \<and>
     sze g \<le> length ph \<and> sze g \<le> length mg \<and> sze g \<le> length (heap s ! unwrapped g) \<and>
     (\<forall>k < length thr. qinv (queues s k) \<and>
        (\<forall>e \<in> set (qcontents (queues s k)).
           entry_ok g e \<and> flag s ! nat (qe_p e) \<and>
           heap s ! unwrapped g ! nat (qe_p e) = qe_v e))"

definition thr_ok :: "globals \<Rightarrow> real list \<Rightarrow> real list \<Rightarrow> bool" where
  "thr_ok g mg thr \<longleftrightarrow> thr \<noteq> [] \<and> (\<forall>p < sze g. mg ! p \<le> last thr)"

definition unvisited :: "ustate \<Rightarrow> nat" where
  "unvisited s = card {p. p < length (flag s) \<and> \<not> flag s ! p}"

text \<open>
  The effect of a call of \<open>Check\<close> that reaches a new voxel, with \<open>nqe\<close> the record it
  builds: the value is stored, the voxel is marked, the record is pushed on queue \<open>i\<close>.
\<close>

definition reach :: "globals \<Rightarrow> nat \<Rightarrow> QUEUEENTRY \<Rightarrow> ustate \<Rightarrow> ustate" where
  "reach g i nqe s =
     s\<lparr>heap := (heap s)[unwrapped g := (heap s ! unwrapped g)[nat (qe_p nqe) := qe_v nqe]],
       stores := stores s @ [qe_p nqe],
       flag := (flag s)[nat (qe_p nqe) := True],
       queues := (queues s)(i := snd (Push (queues s i) nqe))\<rparr>"

text \<open>Two records one step apart along one axis.\<close>

definition adjacent :: "QUEUEENTRY \<Rightarrow> QUEUEENTRY \<Rightarrow> bool" where
  "adjacent qe nqe \<longleftrightarrow>
     (qe_x nqe - qe_x qe, qe_y nqe - qe_y qe, qe_z nqe - qe_z qe)
       \<in> {(0, 0, 1), (0, 0, - 1), (0, 1, 0), (0, - 1, 0), (1, 0, 0), (- 1, 0, 0)}"

text \<open>
  One new voxel reached while the neighbours of the popped record \<open>qe\<close> are checked.
\<close>

definition reach_step ::
  "globals \<Rightarrow> real list \<Rightarrow> real list \<Rightarrow> real list \<Rightarrow> nat \<Rightarrow> QUEUEENTRY \<Rightarrow> ustate \<Rightarrow> ustate \<Rightarrow> bool" where
  "reach_step g ph mg thr i qe s s' \<longleftrightarrow>
     wf_state g ph mg thr s \<and> entry_ok g qe \<and> flag s ! nat (qe_p qe) \<and>
     heap s ! unwrapped g ! nat (qe_p qe) = qe_v qe \<and>
     (\<exists>nqe. s' = reach g i nqe s \<and> entry_ok g nqe \<and> \<not> flag s ! nat (qe_p nqe) \<and>
        adjacent qe nqe \<and> qe_v nqe = unwrap_value (ph ! nat (qe_p nqe)) (qe_v qe))"

text \<open>
  A voxel, given by a record \<open>e\<close> for it, is closed when every voxel of the grid next to
  it is marked visited; it is waiting when a record for it is in one of the first \<open>N\<close>
  queues. In a covered state every visited voxel is waiting or closed.
\<close>

definition closed :: "globals \<Rightarrow> ustate \<Rightarrow> QUEUEENTRY \<Rightarrow> bool" where
  "closed g s e \<longleftrightarrow> (\<forall>n. entry_ok g n \<and> adjacent e n \<longrightarrow> flag s ! nat (qe_p n))"

definition waiting :: "nat \<Rightarrow> ustate \<Rightarrow> int \<Rightarrow> bool" where
  "waiting N s p \<longleftrightarrow> (\<exists>k < N. \<exists>e \<in> set (qcontents (queues s k)). qe_p e = p)"

definition covered :: "globals \<Rightarrow> nat \<Rightarrow> ustate \<Rightarrow> bool" where
  "covered g N s \<longleftrightarrow>
     (\<forall>e. entry_ok g e \<and> flag s ! nat (qe_p e) \<longrightarrow> waiting N s (qe_p e) \<or> closed g s e)"

text \<open>The same with the voxel at offset \<open>p\<close> left out: the one whose record was just popped.\<close>

definition covered_except :: "globals \<Rightarrow> nat \<Rightarrow> ustate \<Rightarrow> int \<Rightarrow> bool" where
  "covered_except g N s p \<longleftrightarrow>
     (\<forall>e. entry_ok g e \<and> flag s ! nat (qe_p e) \<and> qe_p e \<noteq> p \<longrightarrow>
          waiting N s (qe_p e) \<or> closed g s e)"

text \<open>
  The state in which \<open>unwrap\<close> enters the loop over the bins: the flags cleared, the
  queues initialised, the two stores of lines 227 and 228 done, the seed marked and pushed.
\<close>

definition seeded :: "globals \<Rightarrow> int \<Rightarrow> int \<Rightarrow> int \<Rightarrow> nat \<Rightarrow> ustate \<Rightarrow> ustate" where
  "seeded g seedx seedy seedz N s0 =
     (let seedp = seedx + dim0 g * (seedy + dim1 g * seedz);
          ph = heap s0 ! phase g;
          out = heap s0 ! unwrapped g;
          qe = \<lparr>qe_x = seedx, qe_y = seedy, qe_z = seedz, qe_p = seedp, qe_v = ph ! nat seedp\<rparr>
      in s0\<lparr>errcode := 0,
            heap := (heap s0)[unwrapped g := (out[85 := ph ! 85])[nat seedp := ph ! nat seedp]],
            stores := stores s0 @ [85, seedp],
            flag := (replicate (sze g) False)[nat seedp := True],
            queues := (\<lambda>i. if i < N then InitQueue sizeof_QUEUEENTRY else queues s0 i)
                        (0 := snd (Push (InitQueue sizeof_QUEUEENTRY) qe))\<rparr>)"

text \<open>The number of bins that \<open>unwrap\<close> uses, and its thresholds for the risks \<open>mg\<close>.\<close>

definition nbins :: "int \<Rightarrow> nat" where
  "nbins UNWRAPBINS = nat (if UNWRAPBINS < 2 then 2 else UNWRAPBINS)"

definition thresholds_of :: "real list \<Rightarrow> nat \<Rightarrow> real list" where
  "thresholds_of ms N =
     (case minmax ms of (mn, mx) \<Rightarrow> polefieldthresholds mn ((100001 / 100000) * (mx - mn)) N)"

text \<open>
  A call of \<open>robustUnwrapMain\<close> that the theorems below are about: positive dimensions
  with more than 85 voxels (line 227 reads and writes index 85), three buffers of the store
  that hold at least that many values, an output buffer that is not the phase buffer, and no
  more bins than there are queues. \<open>main_globals\<close> are the variables as the call sets them,
  with \<open>mag\<close> at the address that \<open>new float[sze]\<close> returns.
\<close>

definition valid_call :: "nat \<times> nat \<times> nat \<Rightarrow> nat \<Rightarrow> nat \<Rightarrow> nat \<Rightarrow> int \<Rightarrow> ustate \<Rightarrow> bool" where
  "valid_call dims phaseIn magIn output numunwrapbins s0 \<longleftrightarrow>
     (case dims of (d0, d1, d2) \<Rightarrow>
        0 < d0 \<and> 0 < d1 \<and> 0 < d2 \<and> 85 < d0 * d1 * d2 \<and>
        phaseIn < length (heap s0) \<and> magIn < length (heap s0) \<and> output < length (heap s0) \<and>
        output \<noteq> phaseIn \<and>
        d0 * d1 * d2 \<le> length (heap s0 ! phaseIn) \<and>
        d0 * d1 * d2 \<le> length (heap s0 ! magIn) \<and>
        d0 * d1 * d2 \<le> length (heap s0 ! output) \<and>
        numunwrapbins \<le> int NUMQUEUES)"

definition main_globals :: "nat \<times> nat \<times> nat \<Rightarrow> nat \<Rightarrow> nat \<Rightarrow> ustate \<Rightarrow> globals" where
  "main_globals dims phaseIn output s0 =
     (case dims of (d0, d1, d2) \<Rightarrow>
        \<lparr>dim0 = int d0, dim1 = int d1, dim2 = int d2, sze = d0 * d1 * d2,
         phase = phaseIn, mag = length (heap s0), unwrapped = output,
         m_bsx = 1, m_bsy = int d0, m_bsz = int d0 * int d1\<rparr>)"

definition main_risk :: "nat \<times> nat \<times> nat \<Rightarrow> nat \<Rightarrow> ustate \<Rightarrow> real list" where
  "main_risk dims magIn s0 =
     (case dims of (d0, d1, d2) \<Rightarrow> map uminus (take (d0 * d1 * d2) (heap s0 ! magIn)))"

definition main_start :: "nat \<times> nat \<times> nat \<Rightarrow> nat \<Rightarrow> nat \<Rightarrow> nat \<Rightarrow> int \<Rightarrow> ustate \<Rightarrow> ustate" where
  "main_start dims phaseIn magIn output numunwrapbins s0 =
     (case dims of (d0, d1, d2) \<Rightarrow>
        seeded (main_globals dims phaseIn output s0)
          (default_seed d0) (default_seed d1) (default_seed d2) (nbins numunwrapbins)
          (s0\<lparr>heap := heap s0 @ [main_risk dims magIn s0]\<rparr>))"

text \<open>The number of voxels of a grid, and the offset of the seed that the call computes.\<close>

definition nvoxels :: "nat \<times> nat \<times> nat \<Rightarrow> nat" where
  "nvoxels dims = (case dims of (d0, d1, d2) \<Rightarrow> d0 * d1 * d2)"

definition seed_index :: "nat \<times> nat \<times> nat \<Rightarrow> int" where
  "seed_index dims =
     (case dims of (d0, d1, d2) \<Rightarrow>
        default_seed d0 + int d0 * (default_seed d1 + int d1 * default_seed d2))"

text \<open>
  A process that has not run the code yet: the static arrays are zero, as C++ initialises
  them, and the store holds the caller's buffers.
\<close>

definition blank_state :: "real list list \<Rightarrow> ustate" where
  "blank_state h =
     \<lparr>errcode = 0, heap = h, flag = [],
      queues = (\<lambda>_. \<lparr>m_bot = 0, m_top = 0, m_size = 0, m_chunk = 0, m_sizeb = 0, m_q = None\<rparr>),
      gerror_log = [], stores = []\<rparr>"

text \<open>
  An example call: a line of 86 voxels whose wrapped phase climbs by 4 from voxel to voxel,
  with magnitudes that alternate between 1 and 3.
\<close>

definition example_heap :: "real list list" where
  "example_heap =
     [map (\<lambda>i. 4 * real i) [0..<86], map (\<lambda>i. if even i then 1 else 3) [0..<86],
      replicate 86 0]"










text \<open>
  Two more calls: Scenario A of the specification (a grid of 3 by 3 by 3 with constant
  phase), and a grid of depth zero handed buffers of 86 values.
\<close>

definition scenario_A_heap :: "real list list" where
  "scenario_A_heap = [replicate 27 (1 / 2), replicate 27 0, replicate 27 0]"

definition zero_depth_heap :: "real list list" where
  "zero_depth_heap = [replicate 86 (1 / 2), replicate 86 1, replicate 86 0]"


section \<open>Queue lemmas\<close>

lemma qinv_InitQueue: "qinv (InitQueue c)"
  by (simp add: qinv_def InitQueue_def DEFAULTBLOCK_def)

lemma qcontents_InitQueue: "qcontents (InitQueue c) = []"
  by (simp add: qcontents_def qcells_def InitQueue_def)

lemma take_Suc_update: "i < length b \<Longrightarrow> take (Suc i) (b[i := v]) = take i b @ [v]"
  by (simp add: take_Suc_conv_app_nth)

lemma take_drop_update:
  assumes "bt \<le> tp" "tp < length b"
  shows "take (Suc tp - bt) (drop bt (b[tp := v])) = take (tp - bt) (drop bt b) @ [v]"
proof -
  have "drop bt (b[tp := v]) = (drop bt b)[tp - bt := v]"
    using assms by (simp add: drop_update_swap)
  moreover have "Suc tp - bt = Suc (tp - bt)"
    using assms by simp
  moreover have "tp - bt < length (drop bt b)"
    using assms by simp
  ultimately show ?thesis
    by (simp only: take_Suc_update)
qed

lemma drop_update_last:
  assumes "bt \<le> tp" "Suc tp = length b"
  shows "drop bt (b[tp := v]) = take (tp - bt) (drop bt b) @ [v]"
proof -
  have "drop bt (b[tp := v]) = take (Suc tp - bt) (drop bt (b[tp := v]))"
    using assms by simp
  then show ?thesis
    using take_drop_update[of bt tp b v] assms by simp
qed


lemma Push_ok:
  assumes "qinv q"
  shows "fst (Push q x) = 0 \<and> qinv (snd (Push q x)) \<and> qcontents (snd (Push q x)) = qcontents q @ [x]"
proof -
  define buf where "buf = (case m_q q of None \<Rightarrow> replicate (m_size q) None | Some b \<Rightarrow> b)"
  define bt where "bt = m_bot q"
  define tp where "tp = m_top q"
  define sz where "sz = m_size q"
  define b1 where "b1 = buf[tp := Some x]"
  have len: "length buf = sz" and bts: "bt < sz" and tps: "tp < sz"
    using assms by (auto simp: qinv_def buf_def bt_def tp_def sz_def split: option.splits)
  have len1: "length b1 = sz" by (simp add: b1_def len)
  have cells: "qcells q = (if bt \<le> tp then take (tp - bt) (drop bt buf) else drop bt buf @ take tp buf)"
    using assms by (auto simp: qinv_def qcells_def buf_def bt_def tp_def sz_def split: option.splits)
  have nn: "None \<notin> set (qcells q)"
    using assms by (auto simp: qinv_def qcells_def split: option.splits)
  have fst0: "fst (Push q x) = 0"
    by (simp add: Push_def Let_def)
  consider (grow) "(if Suc tp = sz then 0 else Suc tp) = bt"
    | (wrap) "Suc tp = sz" "bt \<noteq> 0"
    | (step) "Suc tp < sz" "Suc tp \<noteq> bt"
    using tps by (cases "Suc tp = sz") auto
  then have "qinv (snd (Push q x)) \<and> qcells (snd (Push q x)) = qcells q @ [Some x]"
  proof cases
    case grow
    have P: "snd (Push q x) = q\<lparr>m_bot := 0, m_top := sz, m_size := sz + BLOCKINCREMENT,
               m_sizeb := (sz + BLOCKINCREMENT) * m_chunk q,
               m_q := Some (take (sz - bt) (drop bt b1) @ take bt b1
                        @ replicate (sz + BLOCKINCREMENT - (sz - bt) - bt) None)\<rparr>"
      using grow by (simp add: Push_def Let_def buf_def[symmetric] bt_def[symmetric]
          tp_def[symmetric] sz_def[symmetric] b1_def[symmetric])
    have new: "qcells (snd (Push q x)) = drop bt b1 @ take bt b1"
      using bts len1 by (simp add: P qcells_def)
    have old: "drop bt b1 @ take bt b1 = qcells q @ [Some x]"
    proof (cases "bt \<le> tp")
      case True
      with grow tps have "bt = 0" "Suc tp = sz" by (auto split: if_splits)
      then show ?thesis
        using drop_update_last[of 0 tp buf "Some x"] len by (simp add: cells b1_def)
    next
      case False
      with grow have "bt = Suc tp" by (auto split: if_splits)
      then show ?thesis
        using tps len by (simp add: cells b1_def take_Suc_update)
    qed
    have c: "qcells (snd (Push q x)) = qcells q @ [Some x]"
      by (simp add: new old)
    have "qinv (snd (Push q x))"
      unfolding qinv_def c using nn bts len1 by (simp add: P BLOCKINCREMENT_def)
    with c show ?thesis by simp
  next
    case wrap
    have P: "snd (Push q x) = q\<lparr>m_top := 0, m_q := Some b1\<rparr>"
      using wrap by (simp add: Push_def Let_def buf_def[symmetric] bt_def[symmetric]
          tp_def[symmetric] sz_def[symmetric] b1_def[symmetric])
    have new: "qcells (snd (Push q x)) = drop bt b1"
      using wrap by (simp add: P qcells_def bt_def[symmetric])
    have old: "drop bt b1 = qcells q @ [Some x]"
      using wrap bts drop_update_last[of bt tp buf "Some x"] len by (simp add: cells b1_def)
    have c: "qcells (snd (Push q x)) = qcells q @ [Some x]"
      by (simp add: new old)
    have "qinv (snd (Push q x))"
      unfolding qinv_def c using nn wrap bts len1
      by (simp add: P bt_def[symmetric] sz_def[symmetric])
    with c show ?thesis by simp
  next
    case step
    have P: "snd (Push q x) = q\<lparr>m_top := Suc tp, m_q := Some b1\<rparr>"
      using step by (simp add: Push_def Let_def buf_def[symmetric] bt_def[symmetric]
          tp_def[symmetric] sz_def[symmetric] b1_def[symmetric])
    have new: "qcells (snd (Push q x)) =
        (if bt \<le> Suc tp then take (Suc tp - bt) (drop bt b1) else drop bt b1 @ take (Suc tp) b1)"
      by (simp add: P qcells_def bt_def[symmetric])
    have old: "(if bt \<le> Suc tp then take (Suc tp - bt) (drop bt b1) else drop bt b1 @ take (Suc tp) b1)
        = qcells q @ [Some x]"
    proof (cases "bt \<le> tp")
      case True
      then show ?thesis
        using take_drop_update[of bt tp buf "Some x"] tps len by (simp add: cells b1_def)
    next
      case False
      then show ?thesis
        using step tps len by (simp add: cells b1_def take_Suc_update)
    qed
    have c: "qcells (snd (Push q x)) = qcells q @ [Some x]"
      by (simp add: new old)
    have "qinv (snd (Push q x))"
      unfolding qinv_def c using nn step bts len1
      by (simp add: P bt_def[symmetric] sz_def[symmetric])
    with c show ?thesis by simp
  qed
  then show ?thesis
    by (simp add: fst0 qcontents_def)
qed


lemma Pop_empty:
  assumes "qinv q" "qcontents q = []"
  shows "Pop q = (1, None, q)"
proof -
  have "m_bot q = m_top q"
  proof (rule ccontr)
    assume ne: "m_bot q \<noteq> m_top q"
    then obtain b where b: "m_q q = Some b" "length b = m_size q"
      using assms(1) by (auto simp: qinv_def split: option.splits)
    have "qcells q \<noteq> []"
      using ne assms(1) b by (auto simp: qinv_def qcells_def)
    with assms(2) show False by (simp add: qcontents_def)
  qed
  then show ?thesis by (simp add: Pop_def)
qed

lemma Pop_nonempty:
  assumes "qinv q" "qcontents q = y # ys"
  shows "\<exists>q'. Pop q = (0, Some y, q') \<and> qinv q' \<and> qcontents q' = ys
            \<and> m_size q' = m_size q \<and> m_q q' = m_q q"
proof -
  define bt where "bt = m_bot q"
  define tp where "tp = m_top q"
  define sz where "sz = m_size q"
  from assms(2) have ne: "qcells q \<noteq> []" by (auto simp: qcontents_def)
  then obtain b where b: "m_q q = Some b"
    by (auto simp: qcells_def split: option.splits)
  have len: "length b = sz" and bts: "bt < sz" and tps: "tp < sz"
    and nn: "None \<notin> set (qcells q)"
    using assms(1) b by (auto simp: qinv_def bt_def tp_def sz_def)
  have cells: "qcells q = (if bt \<le> tp then take (tp - bt) (drop bt b) else drop bt b @ take tp b)"
    by (simp add: qcells_def b bt_def tp_def)
  have neq: "bt \<noteq> tp" using ne cells by auto
  have hd: "qcells q = b ! bt # (if Suc bt = sz then take tp b
              else if Suc bt \<le> tp then take (tp - Suc bt) (drop (Suc bt) b)
              else drop (Suc bt) b @ take tp b)"
  proof (cases "bt \<le> tp")
    case True
    with neq have lt: "bt < tp" by simp
    then obtain k where k: "tp - bt = Suc k" by (cases "tp - bt") auto
    have d: "drop bt b = b ! bt # drop (Suc bt) b"
      using bts len by (simp add: Cons_nth_drop_Suc)
    have "Suc bt \<noteq> sz" using lt tps by simp
    moreover have "k = tp - Suc bt" using k by simp
    ultimately show ?thesis using True lt by (simp add: cells k d)
  next
    case False
    have d: "drop bt b = b ! bt # drop (Suc bt) b"
      using bts len by (simp add: Cons_nth_drop_Suc)
    show ?thesis using False len by (auto simp: cells d)
  qed
  define q' where "q' = q\<lparr>m_bot := (if Suc bt = sz then 0 else Suc bt)\<rparr>"
  have P: "Pop q = (0, b ! bt, q')"
    using neq bts len by (simp add: Pop_def Let_def q'_def b cell_at_def bt_def[symmetric]
        tp_def[symmetric] sz_def[symmetric])
  have c1: "qcells q' = (if Suc bt = sz then take tp b
              else if Suc bt \<le> tp then take (tp - Suc bt) (drop (Suc bt) b)
              else drop (Suc bt) b @ take tp b)"
    using tps by (auto simp: q'_def qcells_def b tp_def[symmetric])
  have c': "qcells q' = tl (qcells q)"
    by (subst hd) (simp only: c1 list.sel)
  have y: "b ! bt = Some y"
    using assms(2) nn by (auto simp: qcontents_def hd)
  have nn': "None \<notin> set (qcells q')"
    using nn ne unfolding c' by (cases "qcells q") auto
  have "qinv q'"
    unfolding qinv_def using nn' bts tps len
    by (auto simp: q'_def b sz_def[symmetric] tp_def[symmetric])
  moreover have "qcontents q' = ys"
    using assms(2) by (simp add: qcontents_def c' map_tl)
  ultimately show ?thesis
    by (auto simp: P y q'_def)
qed

lemma run_ops_fifo: "qinv q \<Longrightarrow> run_ops q ops = spec_fifo (qcontents q) ops"
proof (induction ops arbitrary: q)
  case Nil
  show ?case by simp
next
  case (Cons a ops)
  show ?case
  proof (cases a)
    case (PushOp x)
    with Cons Push_ok[of q x] show ?thesis by simp
  next
    case PopOp
    show ?thesis
    proof (cases "qcontents q")
      case Nil
      with Cons PopOp Pop_empty[of q] show ?thesis by simp
    next
      case (Cons y ys)
      with Pop_nonempty[of q y ys] Cons.prems obtain q'
        where "Pop q = (0, Some y, q')" "qinv q'" "qcontents q' = ys" by blast
      with Cons.IH[of q'] PopOp Cons show ?thesis by simp
    qed
  qed
qed

lemma push_all_ok:
  "qinv q \<Longrightarrow> qinv (push_all q xs) \<and> qcontents (push_all q xs) = qcontents q @ xs"
proof (induction xs arbitrary: q)
  case Nil
  then show ?case by simp
next
  case (Cons x xs)
  with Push_ok[of q x] show ?case by simp
qed

lemma push_all_append: "push_all q (xs @ ys) = push_all (push_all q xs) ys"
  by (induction xs arbitrary: q) auto

lemma growth_events_append:
  "growth_events q (xs @ ys) = growth_events q xs + growth_events (push_all q xs) ys"
  by (induction xs arbitrary: q) auto

lemma Push_no_growth:
  assumes "m_bot q = 0" "Suc (m_top q) < m_size q"
  shows "m_size (snd (Push q x)) = m_size q \<and> m_bot (snd (Push q x)) = 0
         \<and> m_top (snd (Push q x)) = Suc (m_top q)"
  using assms by (simp add: Push_def Let_def)

lemma Push_growth:
  assumes "m_bot q = 0" "Suc (m_top q) = m_size q"
  shows "m_size (snd (Push q x)) = m_size q + BLOCKINCREMENT \<and> m_bot (snd (Push q x)) = 0
         \<and> m_top (snd (Push q x)) = m_size q"
  using assms by (simp add: Push_def Let_def)

lemma push_all_no_growth:
  "m_bot q = 0 \<Longrightarrow> m_top q + length xs < m_size q \<Longrightarrow>
   growth_events q xs = 0 \<and> m_size (push_all q xs) = m_size q \<and> m_bot (push_all q xs) = 0
   \<and> m_top (push_all q xs) = m_top q + length xs"
proof (induction xs arbitrary: q)
  case Nil
  then show ?case by simp
next
  case (Cons x xs)
  have s: "Suc (m_top q) < m_size q" using Cons.prems by simp
  note P = Push_no_growth[OF Cons.prems(1) s, of x]
  have "m_top (snd (Push q x)) + length xs < m_size (snd (Push q x))"
    using P Cons.prems by simp
  from Cons.IH[OF _ this] P show ?case by simp
qed

lemma pop_n_ok:
  "qinv q \<Longrightarrow> n \<le> length (qcontents q) \<Longrightarrow>
   pop_n n q = map (\<lambda>x. (0, Some x)) (take n (qcontents q))"
proof (induction n arbitrary: q)
  case 0
  show ?case by simp
next
  case (Suc n)
  then obtain y ys where c: "qcontents q = y # ys" by (cases "qcontents q") auto
  with Pop_nonempty[of q y ys] Suc.prems obtain q'
    where q': "Pop q = (0, Some y, q')" "qinv q'" "qcontents q' = ys" by blast
  with Suc.IH[of q'] Suc.prems c show ?case by simp
qed

lemma growth_scenario:
  fixes xs :: "'a list"
  assumes "DEFAULTBLOCK \<le> length xs" "length xs < DEFAULTBLOCK + BLOCKINCREMENT"
  shows "growth_events (InitQueue c) xs = 1 \<and>
         m_size (push_all (InitQueue c) xs) = DEFAULTBLOCK + BLOCKINCREMENT \<and>
         pop_n (length xs) (push_all (InitQueue c) xs) = map (\<lambda>x. (0, Some x)) xs"
proof -
  define q0 :: "'a queue" where "q0 = InitQueue c"
  define as where "as = take (DEFAULTBLOCK - 1) xs"
  define b where "b = xs ! (DEFAULTBLOCK - 1)"
  define cs where "cs = drop DEFAULTBLOCK xs"
  have D: "0 < DEFAULTBLOCK" by (simp add: DEFAULTBLOCK_def)
  have xs: "xs = as @ b # cs"
    using assms(1) D unfolding as_def b_def cs_def
    by (metis Suc_diff_1 Suc_le_lessD id_take_nth_drop)
  have la: "length as = DEFAULTBLOCK - 1" using assms(1) by (simp add: as_def)
  have lc: "length cs < BLOCKINCREMENT" using assms by (simp add: cs_def BLOCKINCREMENT_def)
  define q1 where "q1 = push_all q0 as"
  define q2 where "q2 = snd (Push q1 b)"
  have q0: "m_bot q0 = 0" "m_top q0 = 0" "m_size q0 = DEFAULTBLOCK"
    by (simp_all add: q0_def InitQueue_def)
  have "m_top q0 + length as < m_size q0" using D by (simp add: q0 la)
  from push_all_no_growth[OF q0(1) this]
  have q1: "growth_events q0 as = 0" "m_size q1 = DEFAULTBLOCK" "m_bot q1 = 0"
    "m_top q1 = DEFAULTBLOCK - 1"
    by (simp_all add: q1_def q0 la)
  have "Suc (m_top q1) = m_size q1" using D by (simp add: q1)
  from Push_growth[OF q1(3) this, of b]
  have q2: "m_size q2 = DEFAULTBLOCK + BLOCKINCREMENT" "m_bot q2 = 0" "m_top q2 = DEFAULTBLOCK"
    by (simp_all add: q2_def q1)
  have "m_top q2 + length cs < m_size q2" using lc by (simp add: q2)
  from push_all_no_growth[OF q2(2) this]
  have q3: "growth_events q2 cs = 0" "m_size (push_all q2 cs) = DEFAULTBLOCK + BLOCKINCREMENT"
    by (simp_all add: q2)
  have pa: "push_all q0 xs = push_all q2 cs"
    by (simp add: xs push_all_append q1_def q2_def)
  have ge: "growth_events q0 xs = 1"
    using q1 q2 q3 by (simp add: xs growth_events_append q1_def[symmetric] q2_def[symmetric]
        BLOCKINCREMENT_def)
  have i0: "qinv q0" and c0: "qcontents q0 = []"
    by (simp_all add: q0_def qinv_InitQueue qcontents_InitQueue)
  have inv: "qinv (push_all q0 xs)" "qcontents (push_all q0 xs) = xs"
    using push_all_ok[OF i0, of xs] by (simp_all add: c0)
  have "pop_n (length xs) (push_all q0 xs) = map (\<lambda>x. (0, Some x)) xs"
    using pop_n_ok[OF inv(1), of "length xs"] by (simp add: inv(2))
  with ge q3(2) pa show ?thesis by (simp add: q0_def)
qed

section \<open>The scan and the thresholds\<close>

lemma scan_finds:
  assumes "ind \<le> j" "j < length thr" "m \<le> thr ! j"
  shows "\<exists>k. scan m thr ind = Some k \<and> ind \<le> k \<and> k \<le> j \<and> m \<le> thr ! k
             \<and> (\<forall>l. ind \<le> l \<and> l < k \<longrightarrow> thr ! l < m)"
  using assms
proof (induction m thr ind rule: scan.induct)
  case (1 m thr ind)
  have lt: "ind < length thr" using "1.prems" by simp
  show ?case
  proof (cases "m > thr ! ind")
    case True
    with "1.prems" have "ind \<noteq> j" by auto
    with "1.prems" have "Suc ind \<le> j" by simp
    from "1.IH"[OF lt True this "1.prems"(2,3)] obtain k where
      k: "scan m thr (Suc ind) = Some k" "Suc ind \<le> k" "k \<le> j" "m \<le> thr ! k"
         "\<forall>l. Suc ind \<le> l \<and> l < k \<longrightarrow> thr ! l < m" by blast
    have "\<forall>l. ind \<le> l \<and> l < k \<longrightarrow> thr ! l < m"
    proof (intro allI impI)
      fix l assume "ind \<le> l \<and> l < k"
      then show "thr ! l < m" using k(5) True by (cases "l = ind") auto
    qed
    with k lt True show ?thesis by (subst scan.simps) auto
  next
    case False
    with lt "1.prems" show ?thesis by (subst scan.simps) auto
  qed
qed

lemma scan_None: "scan m thr ind = None \<Longrightarrow> \<forall>l. ind \<le> l \<and> l < length thr \<longrightarrow> thr ! l < m"
proof (induction m thr ind rule: scan.induct)
  case (1 m thr ind)
  show ?case
  proof (cases "ind < length thr")
    case True
    with "1.prems" have gt: "m > thr ! ind" and n: "scan m thr (Suc ind) = None"
      by (subst (asm) scan.simps, simp split: if_splits)+
    from "1.IH"[OF True gt n] gt show ?thesis
      by (metis Suc_leI le_neq_implies_less)
  next
    case False
    then show ?thesis by simp
  qed
qed

lemma foldl_minmax:
  "foldl (\<lambda>(mn, mx) m. ((if m < mn then m else mn), (if m > mx then m else mx))) (a, b) ms
     = (Min (insert a (set ms)), Max (insert b (set ms)))"
proof (induction ms arbitrary: a b)
  case Nil
  show ?case by simp
next
  case (Cons m ms)
  have 1: "Min (insert (if m < a then m else a) (set ms)) = Min (insert a (insert m (set ms)))"
    by (cases "set ms = {}") (auto simp: min_def Min_insert2 Min.insert_remove)
  have 2: "Max (insert (if b < m then m else b) (set ms)) = Max (insert b (insert m (set ms)))"
    by (cases "set ms = {}") (auto simp: max_def)
  show ?case by (simp add: Cons.IH 1 2 del: Min_insert Max_insert Min.insert Max.insert)
qed

lemma minmax_eq: "minmax ms = (Min (insert (10 ^ 38) (set ms)), Max (insert 0 (set ms)))"
  by (simp add: minmax_def foldl_minmax)

lemma minmax_bounds:
  assumes "minmax ms = (mn, mx)" "m \<in> set ms"
  shows "mn \<le> m" "m \<le> mx"
  using assms by (auto simp: minmax_eq)

lemma length_thresholds: "length (polefieldthresholds mn diff N) = N"
  by (simp add: polefieldthresholds_def)

lemma nth_thresholds:
  "i < N \<Longrightarrow> polefieldthresholds mn diff N ! i = mn + diff * real i / real (N - 1)"
  by (simp add: polefieldthresholds_def)

lemma last_threshold:
  "2 \<le> N \<Longrightarrow> polefieldthresholds mn diff N ! (N - 1) = mn + diff"
  by (simp add: nth_thresholds)

lemma thresholds_mono:
  assumes "0 \<le> diff" "i \<le> j" "j < N"
  shows "polefieldthresholds mn diff N ! i \<le> polefieldthresholds mn diff N ! j"
proof -
  have "diff * real i / real (N - 1) \<le> diff * real j / real (N - 1)"
    using assms by (intro divide_right_mono mult_left_mono) auto
  then show ?thesis using assms by (simp add: nth_thresholds)
qed

section \<open>One call of Check, and six\<close>

lemma idx_bound:
  fixes x y z d0 d1 d2 :: int
  assumes "0 \<le> x" "x < d0" "0 \<le> y" "y < d1" "0 \<le> z" "z < d2"
  shows "0 \<le> x + d0 * (y + d1 * z)" "x + d0 * (y + d1 * z) < d0 * d1 * d2"
proof -
  have d: "0 < d0" "0 < d1" "0 < d2" using assms by auto
  have "d1 * z \<le> d1 * (d2 - 1)" using assms d by (intro mult_left_mono) auto
  then have 1: "y + d1 * z \<le> d1 * d2 - 1" using assms by (simp add: algebra_simps)
  have 0: "0 \<le> y + d1 * z" using assms d by simp
  have "d0 * (y + d1 * z) \<le> d0 * (d1 * d2 - 1)" using 1 d by (intro mult_left_mono) auto
  then show "x + d0 * (y + d1 * z) < d0 * d1 * d2" using assms by (simp add: algebra_simps)
  show "0 \<le> x + d0 * (y + d1 * z)" using assms 0 d by simp
qed

lemma entry_ok_range:
  assumes "valid_globals g" "entry_ok g e"
  shows "0 \<le> qe_p e" "nat (qe_p e) < sze g"
proof -
  have "0 \<le> qe_p e \<and> qe_p e < dim0 g * dim1 g * dim2 g"
    using assms(2) idx_bound[of "qe_x e" "dim0 g" "qe_y e" "dim1 g" "qe_z e" "dim2 g"]
    by (simp add: entry_ok_def)
  then show "0 \<le> qe_p e" "nat (qe_p e) < sze g"
    using assms(1) by (auto simp: valid_globals_def)
qed

lemma unvisited_update:
  assumes "n < length fl" "\<not> fl ! n"
  shows "card {p. p < length (fl[n := True]) \<and> \<not> fl[n := True] ! p} < card {p. p < length fl \<and> \<not> fl ! p}"
proof -
  have "{p. p < length (fl[n := True]) \<and> \<not> fl[n := True] ! p} \<subset> {p. p < length fl \<and> \<not> fl ! p}"
    using assms by (auto simp: nth_list_update)
  then show ?thesis by (intro psubset_card_mono) auto
qed

lemma Push_fst: "fst (Push q x) = 0"
  by (simp add: Push_def Let_def)

lemma Check_cases:
  assumes v: "valid_globals g" and w: "wf_state g ph mg thr s" and e: "entry_ok g qe"
    and o: "off_ok g offp offx offy offz"
  shows "(Check g i qe offp offx offy offz s = Inr s \<and>
          (\<forall>n. entry_ok g n \<and> qe_x n = qe_x qe + offx \<and> qe_y n = qe_y qe + offy \<and>
                qe_z n = qe_z qe + offz \<longrightarrow> flag s ! nat (qe_p n))) \<or>
         (\<exists>nqe. Check g i qe offp offx offy offz s = Inr (reach g i nqe s) \<and>
            entry_ok g nqe \<and> \<not> flag s ! nat (qe_p nqe) \<and>
            qe_x nqe = qe_x qe + offx \<and> qe_y nqe = qe_y qe + offy \<and> qe_z nqe = qe_z qe + offz \<and>
            qe_v nqe = unwrap_value (ph ! nat (qe_p nqe)) (qe_v qe))"
proof -
  define nx where "nx = qe_x qe + offx"
  define ny where "ny = qe_y qe + offy"
  define nz where "nz = qe_z qe + offz"
  define np where "np = qe_p qe + offp"
  show ?thesis
  proof (cases "0 \<le> nx \<and> nx < dim0 g \<and> 0 \<le> ny \<and> ny < dim1 g \<and> 0 \<le> nz \<and> nz < dim2 g")
    case False
    then have "Check g i qe offp offx offy offz s = Inr s"
      by (auto simp: Check_def Let_def nx_def ny_def nz_def)
    moreover have "\<forall>n. entry_ok g n \<and> qe_x n = qe_x qe + offx \<and> qe_y n = qe_y qe + offy \<and>
                qe_z n = qe_z qe + offz \<longrightarrow> flag s ! nat (qe_p n)"
      using False by (auto simp: entry_ok_def nx_def ny_def nz_def)
    ultimately show ?thesis by blast
  next
    case True
    have np: "np = nx + dim0 g * (ny + dim1 g * nz)"
      using e o by (simp add: np_def nx_def ny_def nz_def entry_ok_def off_ok_def algebra_simps)
    have "0 \<le> np \<and> np < dim0 g * dim1 g * dim2 g"
      using True idx_bound[of nx "dim0 g" ny "dim1 g" nz "dim2 g"] by (simp add: np)
    then have r: "0 \<le> np" "nat np < sze g" "np < int (sze g)"
      using v by (auto simp: valid_globals_def)
    show ?thesis
    proof (cases "flag s ! nat np")
      case f: True
      then have "Check g i qe offp offx offy offz s = Inr s"
        using True r w
        by (simp add: Check_def Let_def nx_def[symmetric] ny_def[symmetric] nz_def[symmetric]
            np_def[symmetric] wf_state_def)
      moreover have "\<forall>n. entry_ok g n \<and> qe_x n = qe_x qe + offx \<and> qe_y n = qe_y qe + offy \<and>
                qe_z n = qe_z qe + offz \<longrightarrow> flag s ! nat (qe_p n)"
        using f by (auto simp: entry_ok_def np nx_def ny_def nz_def)
      ultimately show ?thesis by blast
    next
      case f: False
      define nv where "nv = unwrap_value (ph ! nat np) (qe_v qe)"
      define nqe where "nqe = \<lparr>qe_x = nx, qe_y = ny, qe_z = nz, qe_p = np, qe_v = nv\<rparr>"
      have rdp: "rd (heap s) (phase g) np = Some (ph ! nat np)"
        using w r by (auto simp: rd_def wf_state_def)
      have st: "store_unwrapped g np nv s
          = Inr (s\<lparr>heap := (heap s)[unwrapped g := (heap s ! unwrapped g)[nat np := nv]],
                   stores := stores s @ [np]\<rparr>)"
        using w r by (auto simp: store_unwrapped_def wr_def wf_state_def)
      have sel: "qe_p nqe = np" "qe_v nqe = nv" by (simp_all add: nqe_def)
      have "Check g i qe offp offx offy offz s = Inr (reach g i nqe s)"
        using True r w f rdp st
        by (simp add: Check_def Let_def nx_def[symmetric] ny_def[symmetric] nz_def[symmetric]
            np_def[symmetric] nv_def[symmetric] nqe_def[symmetric] then_do_def set_flag_def
            wf_state_def reach_def split_beta Push_fst sel)
      moreover have "entry_ok g nqe" using True np by (simp add: entry_ok_def nqe_def)
      ultimately show ?thesis
        using f by (intro disjI2 exI[of _ nqe]) (simp add: nqe_def nv_def nx_def ny_def nz_def)
    qed
  qed
qed


lemma six_offsets:
  assumes "valid_globals g"
  shows "off_ok g (m_bsz g) 0 0 1" "off_ok g (- m_bsz g) 0 0 (- 1)"
        "off_ok g (m_bsy g) 0 1 0" "off_ok g (- m_bsy g) 0 (- 1) 0"
        "off_ok g (m_bsx g) 1 0 0" "off_ok g (- m_bsx g) (- 1) 0 0"
  using assms by (simp_all add: valid_globals_def off_ok_def)

lemma reach_wf:
  assumes v: "valid_globals g" and w: "wf_state g ph mg thr s" and i: "i < length thr"
    and e: "entry_ok g nqe" and f: "\<not> flag s ! nat (qe_p nqe)"
  shows "wf_state g ph mg thr (reach g i nqe s)"
proof -
  define np where "np = nat (qe_p nqe)"
  have r: "np < sze g" using entry_ok_range[OF v e] by (simp add: np_def)
  have lens: "length (flag s) = sze g" "unwrapped g < length (heap s)"
    "unwrapped g \<noteq> phase g" "unwrapped g \<noteq> mag g" "sze g \<le> length (heap s ! unwrapped g)"
    using w by (simp_all add: wf_state_def)
  have q: "\<forall>k < length thr. qinv (queues (reach g i nqe s) k) \<and>
        (\<forall>e \<in> set (qcontents (queues (reach g i nqe s) k)).
           entry_ok g e \<and> flag (reach g i nqe s) ! nat (qe_p e) \<and>
           heap (reach g i nqe s) ! unwrapped g ! nat (qe_p e) = qe_v e)"
  proof (intro allI impI)
    fix k assume k: "k < length thr"
    have old: "qinv (queues s k)"
      "\<forall>e \<in> set (qcontents (queues s k)). entry_ok g e \<and> flag s ! nat (qe_p e) \<and>
           heap s ! unwrapped g ! nat (qe_p e) = qe_v e"
      using w k by (auto simp: wf_state_def)
    have keep: "entry_ok g e' \<and> flag (reach g i nqe s) ! nat (qe_p e') \<and>
           heap (reach g i nqe s) ! unwrapped g ! nat (qe_p e') = qe_v e'"
      if "entry_ok g e'" "flag s ! nat (qe_p e')" "heap s ! unwrapped g ! nat (qe_p e') = qe_v e'"
      for e'
    proof -
      have ne: "nat (qe_p e') \<noteq> np" using that(2) f by (auto simp: np_def)
      have "nat (qe_p e') < sze g" using entry_ok_range[OF v that(1)] by simp
      then show ?thesis
        using that ne lens by (simp add: reach_def np_def[symmetric] nth_list_update)
    qed
    have new: "entry_ok g nqe \<and> flag (reach g i nqe s) ! nat (qe_p nqe) \<and>
           heap (reach g i nqe s) ! unwrapped g ! nat (qe_p nqe) = qe_v nqe"
      using e r lens by (simp add: reach_def np_def[symmetric])
    show "qinv (queues (reach g i nqe s) k) \<and>
        (\<forall>e \<in> set (qcontents (queues (reach g i nqe s) k)).
           entry_ok g e \<and> flag (reach g i nqe s) ! nat (qe_p e) \<and>
           heap (reach g i nqe s) ! unwrapped g ! nat (qe_p e) = qe_v e)"
    proof (cases "k = i")
      case True
      have P: "qinv (snd (Push (queues s i) nqe))"
        "qcontents (snd (Push (queues s i) nqe)) = qcontents (queues s i) @ [nqe]"
        using Push_ok[of "queues s i" nqe] old True by simp_all
      have qk: "queues (reach g i nqe s) k = snd (Push (queues s i) nqe)"
        using True by (simp add: reach_def)
      show ?thesis unfolding qk using P old keep new True by auto
    next
      case False
      have qk: "queues (reach g i nqe s) k = queues s k"
        using False by (simp add: reach_def)
      show ?thesis unfolding qk using old keep by auto
    qed
  qed
  have rest: "errcode (reach g i nqe s) = 0" "length (flag (reach g i nqe s)) = sze g"
    "phase g < length (heap (reach g i nqe s))" "mag g < length (heap (reach g i nqe s))"
    "unwrapped g < length (heap (reach g i nqe s))"
    "heap (reach g i nqe s) ! phase g = ph" "heap (reach g i nqe s) ! mag g = mg"
    "sze g \<le> length (heap (reach g i nqe s) ! unwrapped g)"
    using w by (simp_all add: wf_state_def reach_def)
  show ?thesis
    unfolding wf_state_def using rest q w by (simp add: wf_state_def)
qed

lemma reach_unvisited:
  assumes "nat (qe_p nqe) < length (flag s)" "\<not> flag s ! nat (qe_p nqe)"
  shows "unvisited (reach g i nqe s) < unvisited s"
  using unvisited_update[OF assms] by (simp add: unvisited_def reach_def)

lemma reach_step_props:
  assumes v: "valid_globals g" and i: "i < length thr"
    and st: "reach_step g ph mg thr i qe s s'"
  shows "wf_state g ph mg thr s'" "flag s' ! nat (qe_p qe)"
    "heap s' ! unwrapped g ! nat (qe_p qe) = qe_v qe" "unvisited s' < unvisited s"
proof -
  from st obtain nqe where n: "s' = reach g i nqe s" "entry_ok g nqe"
    "\<not> flag s ! nat (qe_p nqe)" and w: "wf_state g ph mg thr s" and e: "entry_ok g qe"
    and f: "flag s ! nat (qe_p qe)" and h: "heap s ! unwrapped g ! nat (qe_p qe) = qe_v qe"
    by (auto simp: reach_step_def)
  have lens: "length (flag s) = sze g" "unwrapped g < length (heap s)"
    "sze g \<le> length (heap s ! unwrapped g)"
    using w by (simp_all add: wf_state_def)
  have r: "nat (qe_p nqe) < sze g" "nat (qe_p qe) < sze g"
    using entry_ok_range[OF v n(2)] entry_ok_range[OF v e] by simp_all
  have ne: "nat (qe_p qe) \<noteq> nat (qe_p nqe)" using f n(3) by auto
  show "wf_state g ph mg thr s'" unfolding n(1) by (rule reach_wf[OF v w i n(2,3)])
  show "flag s' ! nat (qe_p qe)" using f ne r lens by (simp add: n(1) reach_def)
  show "heap s' ! unwrapped g ! nat (qe_p qe) = qe_v qe"
    using h ne r lens by (simp add: n(1) reach_def)
  show "unvisited s' < unvisited s"
    unfolding n(1) using reach_unvisited[of nqe s g i] n(3) r lens by simp
qed

lemma entry_ok_same_coords:
  assumes "entry_ok g a" "entry_ok g b" "qe_x a = qe_x b" "qe_y a = qe_y b" "qe_z a = qe_z b"
  shows "qe_p a = qe_p b"
  using assms by (simp add: entry_ok_def)

lemma reach_step_flag_mono:
  assumes "s' = s \<or> reach_step g ph mg thr i qe s s'" "flag s ! p"
  shows "flag s' ! p"
proof -
  from assms(1) show ?thesis
  proof
    assume "s' = s" with assms(2) show ?thesis by simp
  next
    assume "reach_step g ph mg thr i qe s s'"
    then obtain nqe where "s' = reach g i nqe s" by (auto simp: reach_step_def)
    with assms(2) show ?thesis
      by (cases "nat (qe_p nqe) < length (flag s)")
         (simp_all add: reach_def nth_list_update list_update_beyond)
  qed
qed

lemma Check_step_dir:
  assumes v: "valid_globals g" and w: "wf_state g ph mg thr s" and e: "entry_ok g qe"
    and f: "flag s ! nat (qe_p qe)" and h: "heap s ! unwrapped g ! nat (qe_p qe) = qe_v qe"
    and o: "off_ok g offp offx offy offz"
    and six: "(offx, offy, offz) \<in> {(0, 0, 1), (0, 0, - 1), (0, 1, 0), (0, - 1, 0), (1, 0, 0), (- 1, 0, 0)}"
  shows "\<exists>s'. Check g i qe offp offx offy offz s = Inr s' \<and>
           (s' = s \<or> reach_step g ph mg thr i qe s s') \<and>
           (\<forall>n. entry_ok g n \<and> qe_x n = qe_x qe + offx \<and> qe_y n = qe_y qe + offy \<and>
                qe_z n = qe_z qe + offz \<longrightarrow> flag s' ! nat (qe_p n))"
proof -
  from Check_cases[OF v w e o, of i] show ?thesis
  proof
    assume "Check g i qe offp offx offy offz s = Inr s \<and>
          (\<forall>n. entry_ok g n \<and> qe_x n = qe_x qe + offx \<and> qe_y n = qe_y qe + offy \<and>
                qe_z n = qe_z qe + offz \<longrightarrow> flag s ! nat (qe_p n))"
    then show ?thesis by blast
  next
    assume "\<exists>nqe. Check g i qe offp offx offy offz s = Inr (reach g i nqe s) \<and>
            entry_ok g nqe \<and> \<not> flag s ! nat (qe_p nqe) \<and>
            qe_x nqe = qe_x qe + offx \<and> qe_y nqe = qe_y qe + offy \<and> qe_z nqe = qe_z qe + offz \<and>
            qe_v nqe = unwrap_value (ph ! nat (qe_p nqe)) (qe_v qe)"
    then obtain nqe where n: "Check g i qe offp offx offy offz s = Inr (reach g i nqe s)"
      "entry_ok g nqe" "\<not> flag s ! nat (qe_p nqe)"
      "qe_x nqe = qe_x qe + offx" "qe_y nqe = qe_y qe + offy" "qe_z nqe = qe_z qe + offz"
      "qe_v nqe = unwrap_value (ph ! nat (qe_p nqe)) (qe_v qe)" by blast
    have "adjacent qe nqe" using six n(4,5,6) by (simp add: adjacent_def)
    then have rs: "reach_step g ph mg thr i qe s (reach g i nqe s)"
      unfolding reach_step_def using w e f h n by blast
    have len: "nat (qe_p nqe) < length (flag s)"
      using entry_ok_range[OF v n(2)] w by (simp add: wf_state_def)
    have "\<forall>m. entry_ok g m \<and> qe_x m = qe_x qe + offx \<and> qe_y m = qe_y qe + offy \<and>
                qe_z m = qe_z qe + offz \<longrightarrow> flag (reach g i nqe s) ! nat (qe_p m)"
    proof (intro allI impI)
      fix m assume m: "entry_ok g m \<and> qe_x m = qe_x qe + offx \<and> qe_y m = qe_y qe + offy \<and>
                qe_z m = qe_z qe + offz"
      then have "qe_p m = qe_p nqe"
        using entry_ok_same_coords[of g m nqe] n(2,4,5,6) by simp
      then show "flag (reach g i nqe s) ! nat (qe_p m)" using len by (simp add: reach_def)
    qed
    with n(1) rs show ?thesis by blast
  qed
qed

lemma expand_closed:
  assumes v: "valid_globals g" and i: "i < length thr"
    and w: "wf_state g ph mg thr s" and e: "entry_ok g qe"
    and f: "flag s ! nat (qe_p qe)" and h: "heap s ! unwrapped g ! nat (qe_p qe) = qe_v qe"
  shows "\<exists>s'. expand g i qe s = Inr s' \<and> (reach_step g ph mg thr i qe)\<^sup>*\<^sup>* s s' \<and>
           closed g s' qe"
proof -
  note O = six_offsets[OF v]
  have keep: "wf_state g ph mg thr b \<and> flag b ! nat (qe_p qe) \<and>
      heap b ! unwrapped g ! nat (qe_p qe) = qe_v qe"
    if "wf_state g ph mg thr a" "flag a ! nat (qe_p qe)"
      "heap a ! unwrapped g ! nat (qe_p qe) = qe_v qe" "b = a \<or> reach_step g ph mg thr i qe a b"
    for a b
    using that reach_step_props[OF v i, of ph mg qe a b] by auto
  from Check_step_dir[OF v w e f h O(1), of i] obtain s1 where
    c1: "Check g i qe (m_bsz g) 0 0 1 s = Inr s1" "s1 = s \<or> reach_step g ph mg thr i qe s s1"
       "\<forall>n. entry_ok g n \<and> qe_x n = qe_x qe + 0 \<and> qe_y n = qe_y qe + 0 \<and>
                qe_z n = qe_z qe + 1 \<longrightarrow> flag s1 ! nat (qe_p n)" by auto
  from keep[OF w f h c1(2)] have k1: "wf_state g ph mg thr s1" "flag s1 ! nat (qe_p qe)"
      "heap s1 ! unwrapped g ! nat (qe_p qe) = qe_v qe" by simp_all
  from Check_step_dir[OF v k1(1) e k1(2,3) O(2), of i] obtain s2 where
    c2: "Check g i qe (- m_bsz g) 0 0 (- 1) s1 = Inr s2"
       "s2 = s1 \<or> reach_step g ph mg thr i qe s1 s2"
       "\<forall>n. entry_ok g n \<and> qe_x n = qe_x qe + 0 \<and> qe_y n = qe_y qe + 0 \<and>
                qe_z n = qe_z qe + (- 1) \<longrightarrow> flag s2 ! nat (qe_p n)" by auto
  from keep[OF k1 c2(2)] have k2: "wf_state g ph mg thr s2" "flag s2 ! nat (qe_p qe)"
      "heap s2 ! unwrapped g ! nat (qe_p qe) = qe_v qe" by simp_all
  from Check_step_dir[OF v k2(1) e k2(2,3) O(3), of i] obtain s3 where
    c3: "Check g i qe (m_bsy g) 0 1 0 s2 = Inr s3"
       "s3 = s2 \<or> reach_step g ph mg thr i qe s2 s3"
       "\<forall>n. entry_ok g n \<and> qe_x n = qe_x qe + 0 \<and> qe_y n = qe_y qe + 1 \<and>
                qe_z n = qe_z qe + 0 \<longrightarrow> flag s3 ! nat (qe_p n)" by auto
  from keep[OF k2 c3(2)] have k3: "wf_state g ph mg thr s3" "flag s3 ! nat (qe_p qe)"
      "heap s3 ! unwrapped g ! nat (qe_p qe) = qe_v qe" by simp_all
  from Check_step_dir[OF v k3(1) e k3(2,3) O(4), of i] obtain s4 where
    c4: "Check g i qe (- m_bsy g) 0 (- 1) 0 s3 = Inr s4"
       "s4 = s3 \<or> reach_step g ph mg thr i qe s3 s4"
       "\<forall>n. entry_ok g n \<and> qe_x n = qe_x qe + 0 \<and> qe_y n = qe_y qe + (- 1) \<and>
                qe_z n = qe_z qe + 0 \<longrightarrow> flag s4 ! nat (qe_p n)" by auto
  from keep[OF k3 c4(2)] have k4: "wf_state g ph mg thr s4" "flag s4 ! nat (qe_p qe)"
      "heap s4 ! unwrapped g ! nat (qe_p qe) = qe_v qe" by simp_all
  from Check_step_dir[OF v k4(1) e k4(2,3) O(5), of i] obtain s5 where
    c5: "Check g i qe (m_bsx g) 1 0 0 s4 = Inr s5"
       "s5 = s4 \<or> reach_step g ph mg thr i qe s4 s5"
       "\<forall>n. entry_ok g n \<and> qe_x n = qe_x qe + 1 \<and> qe_y n = qe_y qe + 0 \<and>
                qe_z n = qe_z qe + 0 \<longrightarrow> flag s5 ! nat (qe_p n)" by auto
  from keep[OF k4 c5(2)] have k5: "wf_state g ph mg thr s5" "flag s5 ! nat (qe_p qe)"
      "heap s5 ! unwrapped g ! nat (qe_p qe) = qe_v qe" by simp_all
  from Check_step_dir[OF v k5(1) e k5(2,3) O(6), of i] obtain s6 where
    c6: "Check g i qe (- m_bsx g) (- 1) 0 0 s5 = Inr s6"
       "s6 = s5 \<or> reach_step g ph mg thr i qe s5 s6"
       "\<forall>n. entry_ok g n \<and> qe_x n = qe_x qe + (- 1) \<and> qe_y n = qe_y qe + 0 \<and>
                qe_z n = qe_z qe + 0 \<longrightarrow> flag s6 ! nat (qe_p n)" by auto
  have ex: "expand g i qe s = Inr s6"
    by (simp add: expand_def then_do_def c1 c2 c3 c4 c5 c6)
  have path: "(reach_step g ph mg thr i qe)\<^sup>*\<^sup>* s s6"
  proof -
    have r: "(reach_step g ph mg thr i qe)\<^sup>*\<^sup>* a b"
      if "b = a \<or> reach_step g ph mg thr i qe a b" for a b using that by auto
    from r[OF c1(2)] r[OF c2(2)] r[OF c3(2)] r[OF c4(2)] r[OF c5(2)] r[OF c6(2)]
    show ?thesis by (meson rtranclp_trans)
  qed
  note M = reach_step_flag_mono
  have cl: "closed g s6 qe"
    unfolding closed_def
  proof (intro allI impI)
    fix n assume n: "entry_ok g n \<and> adjacent qe n"
    then consider
        "qe_x n = qe_x qe + 0" "qe_y n = qe_y qe + 0" "qe_z n = qe_z qe + 1"
      | "qe_x n = qe_x qe + 0" "qe_y n = qe_y qe + 0" "qe_z n = qe_z qe + (- 1)"
      | "qe_x n = qe_x qe + 0" "qe_y n = qe_y qe + 1" "qe_z n = qe_z qe + 0"
      | "qe_x n = qe_x qe + 0" "qe_y n = qe_y qe + (- 1)" "qe_z n = qe_z qe + 0"
      | "qe_x n = qe_x qe + 1" "qe_y n = qe_y qe + 0" "qe_z n = qe_z qe + 0"
      | "qe_x n = qe_x qe + (- 1)" "qe_y n = qe_y qe + 0" "qe_z n = qe_z qe + 0"
      by (auto simp: adjacent_def)
    then show "flag s6 ! nat (qe_p n)"
    proof cases
      case 1
      with c1(3) n have "flag s1 ! nat (qe_p n)" by blast
      then show ?thesis using M[OF c2(2)] M[OF c3(2)] M[OF c4(2)] M[OF c5(2)] M[OF c6(2)] by blast
    next
      case 2
      with c2(3) n have "flag s2 ! nat (qe_p n)" by blast
      then show ?thesis using M[OF c3(2)] M[OF c4(2)] M[OF c5(2)] M[OF c6(2)] by blast
    next
      case 3
      with c3(3) n have "flag s3 ! nat (qe_p n)" by blast
      then show ?thesis using M[OF c4(2)] M[OF c5(2)] M[OF c6(2)] by blast
    next
      case 4
      with c4(3) n have "flag s4 ! nat (qe_p n)" by blast
      then show ?thesis using M[OF c5(2)] M[OF c6(2)] by blast
    next
      case 5
      with c5(3) n have "flag s5 ! nat (qe_p n)" by blast
      then show ?thesis using M[OF c6(2)] by blast
    next
      case 6
      with c6(3) n show ?thesis by blast
    qed
  qed
  from ex path cl show ?thesis by blast
qed

section \<open>The while loop returns\<close>

lemma wf_queue_update:
  assumes w: "wf_state g ph mg thr s" and q: "qinv q'"
    and c: "\<forall>e \<in> set (qcontents q'). entry_ok g e \<and> flag s ! nat (qe_p e) \<and>
           heap s ! unwrapped g ! nat (qe_p e) = qe_v e"
  shows "wf_state g ph mg thr (s\<lparr>queues := (queues s)(j := q')\<rparr>)"
  using assms by (auto simp: wf_state_def)

lemma pop_state:
  assumes w: "wf_state g ph mg thr s" and i: "i < length thr"
    and c: "qcontents (queues s i) = qe # rest"
  shows "\<exists>q'. Pop (queues s i) = (0, Some qe, q') \<and> qcontents q' = rest \<and>
           wf_state g ph mg thr (s\<lparr>queues := (queues s)(i := q')\<rparr>) \<and>
           entry_ok g qe \<and> flag s ! nat (qe_p qe) \<and> heap s ! unwrapped g ! nat (qe_p qe) = qe_v qe"
proof -
  have qi: "qinv (queues s i)" and en: "\<forall>e \<in> set (qcontents (queues s i)).
      entry_ok g e \<and> flag s ! nat (qe_p e) \<and> heap s ! unwrapped g ! nat (qe_p e) = qe_v e"
    using w i by (auto simp: wf_state_def)
  from Pop_nonempty[OF qi c] obtain q' where
    q': "Pop (queues s i) = (0, Some qe, q')" "qinv q'" "qcontents q' = rest" by blast
  have "wf_state g ph mg thr (s\<lparr>queues := (queues s)(i := q')\<rparr>)"
    using en c q' by (intro wf_queue_update[OF w]) auto
  with q' en c show ?thesis by auto
qed

lemma iteration:
  assumes v: "valid_globals g" and t: "thr_ok g mg thr" and i: "i < length thr"
    and w: "wf_state g ph mg thr s" and e: "entry_ok g qe"
    and f: "flag s ! nat (qe_p qe)" and h: "heap s ! unwrapped g ! nat (qe_p qe) = qe_v qe"
  shows "(\<exists>j. i < j \<and> j < length thr \<and> thr ! i < mg ! nat (qe_p qe) \<and>
            mg ! nat (qe_p qe) \<le> thr ! j \<and>
            (\<forall>l. i < l \<and> l < j \<longrightarrow> thr ! l < mg ! nat (qe_p qe)) \<and>
            visit g thr i (Some qe) s
              = Inr (s\<lparr>queues := (queues s)(j := snd (Push (queues s j) qe))\<rparr>))
         \<or> (mg ! nat (qe_p qe) \<le> thr ! i \<and>
            (\<exists>s'. visit g thr i (Some qe) s = Inr s' \<and> (reach_step g ph mg thr i qe)\<^sup>*\<^sup>* s s'
                  \<and> closed g s' qe))"
proof -
  define m where "m = mg ! nat (qe_p qe)"
  have r: "0 \<le> qe_p qe" "nat (qe_p qe) < sze g" using entry_ok_range[OF v e] by simp_all
  have rdm: "rd (heap s) (mag g) (qe_p qe) = Some m"
    using w r by (auto simp: rd_def wf_state_def m_def)
  have "last thr = thr ! (length thr - 1)"
    using t by (simp add: thr_ok_def last_conv_nth)
  moreover have "m \<le> last thr" using t r by (simp add: thr_ok_def m_def)
  ultimately have lastm: "m \<le> thr ! (length thr - 1)" by simp
  show ?thesis
  proof (cases "m > thr ! i")
    case True
    have "i \<noteq> length thr - 1" using True lastm by auto
    with i have "Suc i \<le> length thr - 1" by simp
    moreover have "length thr - 1 < length thr" using i by simp
    ultimately obtain k where
      k: "scan m thr (Suc i) = Some k" "Suc i \<le> k" "k \<le> length thr - 1" "m \<le> thr ! k"
         "\<forall>l. Suc i \<le> l \<and> l < k \<longrightarrow> thr ! l < m"
      using scan_finds[of "Suc i" "length thr - 1" thr m] lastm by blast
    have "visit g thr i (Some qe) s
              = Inr (s\<lparr>queues := (queues s)(k := snd (Push (queues s k) qe))\<rparr>)"
      using True i k(1) by (simp add: visit_def rdm)
    moreover have "\<forall>l. i < l \<and> l < k \<longrightarrow> thr ! l < m" using k(5) by auto
    ultimately show ?thesis
      using k i True unfolding m_def[symmetric] by (intro disjI1 exI[of _ k]) auto
  next
    case False
    have "visit g thr i (Some qe) s = expand g i qe s"
      using False i by (simp add: visit_def rdm)
    with expand_closed[OF v i w e f h] False show ?thesis
      unfolding m_def[symmetric] by auto
  qed
qed

lemma reach_steps_props:
  assumes v: "valid_globals g" and i: "i < length thr"
    and st: "(reach_step g ph mg thr i qe)\<^sup>*\<^sup>* s s'"
    and w: "wf_state g ph mg thr s"
  shows "wf_state g ph mg thr s'" "s' = s \<or> unvisited s' < unvisited s"
proof -
  have "wf_state g ph mg thr s' \<and> (s' = s \<or> unvisited s' < unvisited s)"
    using st
  proof (induction rule: rtranclp_induct)
    case base
    show ?case using w by simp
  next
    case (step y z)
    from reach_step_props[OF v i step.hyps(2)] step.IH show ?case by auto
  qed
  then show "wf_state g ph mg thr s'" "s' = s \<or> unvisited s' < unvisited s" by simp_all
qed

lemma defer_wf:
  assumes w: "wf_state g ph mg thr s" and j: "j < length thr" and e: "entry_ok g qe"
    and f: "flag s ! nat (qe_p qe)" and h: "heap s ! unwrapped g ! nat (qe_p qe) = qe_v qe"
  shows "wf_state g ph mg thr (s\<lparr>queues := (queues s)(j := snd (Push (queues s j) qe))\<rparr>)"
proof -
  have qi: "qinv (queues s j)" and en: "\<forall>e \<in> set (qcontents (queues s j)).
      entry_ok g e \<and> flag s ! nat (qe_p e) \<and> heap s ! unwrapped g ! nat (qe_p e) = qe_v e"
    using w j by (auto simp: wf_state_def)
  from Push_ok[OF qi, of qe] en e f h show ?thesis
    by (intro wf_queue_update[OF w]) auto
qed

text \<open>One round of the while loop from a state at the head of the loop.\<close>

lemma round_progress:
  assumes v: "valid_globals g" and t: "thr_ok g mg thr" and i: "i < length thr"
    and w: "wf_state g ph mg thr s"
    and c: "qcontents (queues s i) = qe # rest"
  shows "\<exists>q' s'. Pop (queues s i) = (0, Some qe, q') \<and>
           visit g thr i (Some qe) (s\<lparr>queues := (queues s)(i := q')\<rparr>) = Inr s' \<and>
           wf_state g ph mg thr s' \<and>
           (unvisited s' < unvisited s \<or>
            unvisited s' = unvisited s \<and>
            length (qcontents (queues s' i)) < length (qcontents (queues s i)))"
proof -
  from pop_state[OF w i c] obtain q' where
    q': "Pop (queues s i) = (0, Some qe, q')" "qcontents q' = rest"
    and w1: "wf_state g ph mg thr (s\<lparr>queues := (queues s)(i := q')\<rparr>)"
    and e: "entry_ok g qe" and f: "flag s ! nat (qe_p qe)"
    and h: "heap s ! unwrapped g ! nat (qe_p qe) = qe_v qe" by blast
  define s1 where "s1 = s\<lparr>queues := (queues s)(i := q')\<rparr>"
  have f1: "flag s1 ! nat (qe_p qe)" and h1: "heap s1 ! unwrapped g ! nat (qe_p qe) = qe_v qe"
    using f h by (simp_all add: s1_def)
  have u1: "unvisited s1 = unvisited s" by (simp add: s1_def unvisited_def)
  have c1: "qcontents (queues s1 i) = rest" using q' by (simp add: s1_def)
  from iteration[OF v t i w1[folded s1_def] e f1 h1]
  show ?thesis
  proof
    assume "\<exists>j. i < j \<and> j < length thr \<and> thr ! i < mg ! nat (qe_p qe) \<and>
            mg ! nat (qe_p qe) \<le> thr ! j \<and>
            (\<forall>l. i < l \<and> l < j \<longrightarrow> thr ! l < mg ! nat (qe_p qe)) \<and>
            visit g thr i (Some qe) s1
              = Inr (s1\<lparr>queues := (queues s1)(j := snd (Push (queues s1 j) qe))\<rparr>)"
    then obtain j where j: "i < j" "j < length thr"
      "visit g thr i (Some qe) s1
              = Inr (s1\<lparr>queues := (queues s1)(j := snd (Push (queues s1 j) qe))\<rparr>)" by blast
    define s' where "s' = s1\<lparr>queues := (queues s1)(j := snd (Push (queues s1 j) qe))\<rparr>"
    have "wf_state g ph mg thr s'"
      unfolding s'_def by (rule defer_wf[OF w1[folded s1_def] j(2) e f1 h1])
    moreover have "unvisited s' = unvisited s" by (simp add: s'_def s1_def unvisited_def)
    moreover have "qcontents (queues s' i) = rest" using j(1) c1 by (simp add: s'_def)
    moreover have "visit g thr i (Some qe) (s\<lparr>queues := (queues s)(i := q')\<rparr>) = Inr s'"
      using j(3) by (simp add: s1_def s'_def)
    ultimately show ?thesis
      using q'(1) c by (intro exI[of _ q'] exI[of _ s']) simp
  next
    assume "mg ! nat (qe_p qe) \<le> thr ! i \<and>
            (\<exists>s'. visit g thr i (Some qe) s1 = Inr s' \<and> (reach_step g ph mg thr i qe)\<^sup>*\<^sup>* s1 s'
                  \<and> closed g s' qe)"
    then obtain s' where s': "visit g thr i (Some qe) s1 = Inr s'"
      "(reach_step g ph mg thr i qe)\<^sup>*\<^sup>* s1 s'" by blast
    from reach_steps_props[OF v i s'(2) w1[folded s1_def]]
    have "wf_state g ph mg thr s'" "s' = s1 \<or> unvisited s' < unvisited s1" by simp_all
    moreover have "visit g thr i (Some qe) (s\<lparr>queues := (queues s)(i := q')\<rparr>) = Inr s'"
      using s'(1) by (simp add: s1_def)
    ultimately show ?thesis
      using q'(1) c c1 u1 by (intro exI[of _ q'] exI[of _ s']) auto
  qed
qed

lemma drain_total:
  assumes v: "valid_globals g" and t: "thr_ok g mg thr" and i: "i < length thr"
    and J: "\<And>s qe rest q' s'. wf_state g ph mg thr s \<Longrightarrow> J s \<Longrightarrow>
              qcontents (queues s i) = qe # rest \<Longrightarrow> Pop (queues s i) = (0, Some qe, q') \<Longrightarrow>
              visit g thr i (Some qe) (s\<lparr>queues := (queues s)(i := q')\<rparr>) = Inr s' \<Longrightarrow> J s'"
  shows "wf_state g ph mg thr s \<Longrightarrow> J s \<Longrightarrow>
         \<exists>s'. drain g thr i s = Some (Inr s') \<and> wf_state g ph mg thr s' \<and> J s'
              \<and> qcontents (queues s' i) = []"
proof (induction s rule: wf_induct_rule[OF wf_inv_image[OF wf_lex_prod[OF wf_less_than wf_less_than]],
      where f1 = "\<lambda>s. (unvisited s, length (qcontents (queues s i)))"])
  case (1 s)
  note IH = "1.IH" and prems = "1.prems"
  have err: "errcode s = 0" using prems(1) by (simp add: wf_state_def)
  have qi: "qinv (queues s i)" using prems(1) i by (simp add: wf_state_def)
  show ?case
  proof (cases "qcontents (queues s i)")
    case Nil
    from Pop_empty[OF qi Nil] have "drain g thr i s = Some (Inr s)"
      by (subst drain.simps) (simp add: err)
    with prems Nil show ?thesis by simp
  next
    case (Cons qe rest)
    from round_progress[OF v t i prems(1) Cons] obtain q' s' where
      r: "Pop (queues s i) = (0, Some qe, q')"
         "visit g thr i (Some qe) (s\<lparr>queues := (queues s)(i := q')\<rparr>) = Inr s'"
         "wf_state g ph mg thr s'"
         "unvisited s' < unvisited s \<or>
            unvisited s' = unvisited s \<and>
            length (qcontents (queues s' i)) < length (qcontents (queues s i))" by blast
    have Js': "J s'" by (rule J[OF prems Cons r(1,2)])
    have "(s', s) \<in> inv_image (less_than <*lex*> less_than)
         (\<lambda>s. (unvisited s, length (qcontents (queues s i))))"
      using r(4) by auto
    from IH[OF this r(3) Js'] obtain s'' where
      "drain g thr i s' = Some (Inr s'')" "wf_state g ph mg thr s''" "J s''"
      "qcontents (queues s'' i) = []" by blast
    moreover have "drain g thr i s = drain g thr i s'"
      by (subst drain.simps) (simp add: err r(1,2))
    ultimately show ?thesis by simp
  qed
qed

section \<open>The loop over the bins returns\<close>

lemma qinv_empty:
  assumes "qinv q" "qcontents q = []"
  shows "m_bot q = m_top q"
  using Pop_empty[OF assms] by (auto simp: Pop_def Let_def split: if_splits)

lemma Terminate_ok:
  assumes "qinv q" "qcontents q = []"
  shows "qinv (TerminateQueue q)" "qcontents (TerminateQueue q) = []"
  using assms qinv_empty[OF assms]
  by (simp_all add: qinv_def TerminateQueue_def qcontents_def qcells_def)

lemma bins_total:
  assumes v: "valid_globals g" and t: "thr_ok g mg thr"
    and J: "\<And>i s qe rest q' s'. i < length thr \<Longrightarrow> wf_state g ph mg thr s \<Longrightarrow> J i s \<Longrightarrow>
              qcontents (queues s i) = qe # rest \<Longrightarrow> Pop (queues s i) = (0, Some qe, q') \<Longrightarrow>
              visit g thr i (Some qe) (s\<lparr>queues := (queues s)(i := q')\<rparr>) = Inr s' \<Longrightarrow> J i s'"
    and T: "\<And>i s. i < length thr \<Longrightarrow> wf_state g ph mg thr s \<Longrightarrow> J i s \<Longrightarrow>
              qcontents (queues s i) = [] \<Longrightarrow>
              J (Suc i) (s\<lparr>queues := (queues s)(i := TerminateQueue (queues s i))\<rparr>)"
  shows "i \<le> length thr \<Longrightarrow> wf_state g ph mg thr s \<Longrightarrow> J i s \<Longrightarrow>
         \<exists>s'. bins g thr [i..<length thr] s = Some (Inr s') \<and> wf_state g ph mg thr s'
              \<and> J (length thr) s'"
proof (induction "length thr - i" arbitrary: i s)
  case 0
  then show ?case by simp
next
  case (Suc n)
  have i: "i < length thr" using Suc.hyps(2) by simp
  have "\<exists>s'. drain g thr i s = Some (Inr s') \<and> wf_state g ph mg thr s' \<and> J i s'
              \<and> qcontents (queues s' i) = []"
    by (rule drain_total[where J = "J i", OF v t i J[OF i] Suc.prems(2,3)])
  then obtain s1 where
    s1: "drain g thr i s = Some (Inr s1)" "wf_state g ph mg thr s1" "J i s1"
        "qcontents (queues s1 i) = []" by blast
  define s2 where "s2 = s1\<lparr>queues := (queues s1)(i := TerminateQueue (queues s1 i))\<rparr>"
  have qi: "qinv (queues s1 i)" using s1(2) i by (simp add: wf_state_def)
  have w2: "wf_state g ph mg thr s2"
    unfolding s2_def using Terminate_ok[OF qi s1(4)] by (intro wf_queue_update[OF s1(2)]) auto
  have J2: "J (Suc i) s2" unfolding s2_def by (rule T[OF i s1(2,3,4)])
  have e2: "errcode s2 = 0" using w2 by (simp add: wf_state_def)
  have n: "n = length thr - Suc i" using Suc.hyps(2) by simp
  from Suc.hyps(1)[OF n _ w2 J2] i obtain s' where
    s': "bins g thr [Suc i..<length thr] s2 = Some (Inr s')" "wf_state g ph mg thr s'"
        "J (length thr) s'" by auto
  have "bins g thr [i..<length thr] s = Some (Inr s')"
    using i s1(1) s'(1) e2 by (simp add: upt_conv_Cons s2_def[symmetric] Let_def)
  with s' show ?case by blast
qed

lemma simple_round:
  assumes v: "valid_globals g" and t: "thr_ok g mg thr" and i: "i < length thr"
    and Jq: "\<And>s q. J (s\<lparr>queues := q\<rparr>) = J s"
    and Jr: "\<And>qe s s'. reach_step g ph mg thr i qe s s' \<Longrightarrow> J s \<Longrightarrow> J s'"
    and w: "wf_state g ph mg thr s" and J0: "J s"
    and c: "qcontents (queues s i) = qe # rest" and p: "Pop (queues s i) = (0, Some qe, q')"
    and vi: "visit g thr i (Some qe) (s\<lparr>queues := (queues s)(i := q')\<rparr>) = Inr s'"
  shows "J s'"
proof -
  from pop_state[OF w i c] p have
    w1: "wf_state g ph mg thr (s\<lparr>queues := (queues s)(i := q')\<rparr>)"
    and e: "entry_ok g qe" and f: "flag s ! nat (qe_p qe)"
    and h: "heap s ! unwrapped g ! nat (qe_p qe) = qe_v qe" by auto
  define s1 where "s1 = s\<lparr>queues := (queues s)(i := q')\<rparr>"
  have f1: "flag s1 ! nat (qe_p qe)" and h1: "heap s1 ! unwrapped g ! nat (qe_p qe) = qe_v qe"
    using f h by (simp_all add: s1_def)
  have J1: "J s1" using J0 by (simp add: s1_def Jq)
  from iteration[OF v t i w1[folded s1_def] e f1 h1] vi[folded s1_def]
  consider j where "s' = s1\<lparr>queues := (queues s1)(j := snd (Push (queues s1 j) qe))\<rparr>"
    | "(reach_step g ph mg thr i qe)\<^sup>*\<^sup>* s1 s'"
    by auto
  then show ?thesis
  proof cases
    case 1
    then show ?thesis using J1 by (simp add: Jq)
  next
    case 2
    then show ?thesis
      by (induction rule: rtranclp_induct) (auto intro: J1 Jr)
  qed
qed

section \<open>The call returns\<close>

lemma unwrap_unfold:
  assumes "mag g < length (heap s0)" "sze g \<le> length (heap s0 ! mag g)"
    "phase g < length (heap s0)" "unwrapped g < length (heap s0)" "unwrapped g \<noteq> phase g"
    "85 < length (heap s0 ! phase g)" "85 < length (heap s0 ! unwrapped g)"
    "0 \<le> seedx + dim0 g * (seedy + dim1 g * seedz)"
    "nat (seedx + dim0 g * (seedy + dim1 g * seedz)) < sze g"
    "sze g \<le> length (heap s0 ! phase g)" "sze g \<le> length (heap s0 ! unwrapped g)"
    "nbins B \<le> NUMQUEUES"
  shows "unwrap g seedx seedy seedz B s0
         = bins g (thresholds_of (take (sze g) (heap s0 ! mag g)) (nbins B)) [0..<nbins B]
             (seeded g seedx seedy seedz (nbins B) s0)"
proof -
  define seedp where "seedp = seedx + dim0 g * (seedy + dim1 g * seedz)"
  obtain mn mx where mm: "minmax (take (sze g) (heap s0 ! mag g)) = (mn, mx)"
    by (cases "minmax (take (sze g) (heap s0 ! mag g))") auto
  have sp: "0 \<le> seedp" "nat seedp < sze g" "seedp < int (length (heap s0 ! phase g))"
    "seedp < int (length (heap s0 ! unwrapped g))" "seedp < int (sze g)"
    using assms by (auto simp: seedp_def)
  have n2: "0 < nbins B" by (simp add: nbins_def)
  show ?thesis
    using assms(1-7,12) sp n2
    by (simp add: unwrap_def Let_def mm nbins_def[symmetric] seedp_def[symmetric] rd_def
        store_unwrapped_def wr_def then_do_def set_flag_def seeded_def thresholds_of_def
        list_update_overwrite cong: if_cong)
qed


lemma default_seed_range: "0 < d \<Longrightarrow> 0 \<le> default_seed d \<and> default_seed d < int d"
  by (auto simp: default_seed_def)

lemma nbins_ge2: "2 \<le> nbins B"
  by (auto simp: nbins_def)

lemma length_thresholds_of: "length (thresholds_of ms N) = N"
  by (simp add: thresholds_of_def length_thresholds split: prod.splits)

lemma thresholds_of_cover:
  assumes "2 \<le> N" "m \<in> set ms"
  shows "m \<le> last (thresholds_of ms N)"
proof -
  obtain mn mx where mm: "minmax ms = (mn, mx)" by (cases "minmax ms") auto
  have b: "mn \<le> m" "m \<le> mx" using minmax_bounds[OF mm assms(2)] by simp_all
  have ne: "polefieldthresholds mn ((100001 / 100000) * (mx - mn)) N \<noteq> []"
    using assms(1) length_thresholds[of mn "(100001 / 100000) * (mx - mn)" N] by auto
  have "last (thresholds_of ms N) = mn + (100001 / 100000) * (mx - mn)"
    using assms(1) last_threshold[OF assms(1), of mn "(100001 / 100000) * (mx - mn)"] ne
    by (simp add: thresholds_of_def mm last_conv_nth length_thresholds)
  moreover have "mn + (100001 / 100000) * (mx - mn) = mx + (mx - mn) / 100000"
    by (simp add: field_simps)
  moreover have "0 \<le> (mx - mn) / 100000" using b by simp
  ultimately show ?thesis using b by linarith
qed

lemma main_valid_globals:
  assumes "valid_call dims phaseIn magIn output B s0"
  shows "valid_globals (main_globals dims phaseIn output s0)"
  using assms by (auto simp: valid_call_def main_globals_def valid_globals_def split: prod.splits)

lemma main_thr_ok:
  assumes "valid_call dims phaseIn magIn output B s0"
  shows "thr_ok (main_globals dims phaseIn output s0) (main_risk dims magIn s0)
           (thresholds_of (main_risk dims magIn s0) (nbins B))"
proof -
  obtain d0 d1 d2 where d: "dims = (d0, d1, d2)" by (cases dims) auto
  define mg where "mg = main_risk dims magIn s0"
  have len: "length mg = d0 * d1 * d2"
    using assms by (simp add: mg_def main_risk_def d valid_call_def)
  have sz: "sze (main_globals dims phaseIn output s0) = d0 * d1 * d2"
    by (simp add: main_globals_def d)
  have ne: "thresholds_of mg (nbins B) \<noteq> []"
    using length_thresholds_of[of mg "nbins B"] nbins_ge2[of B] by auto
  have "\<forall>p < d0 * d1 * d2. mg ! p \<le> last (thresholds_of mg (nbins B))"
    using thresholds_of_cover[OF nbins_ge2, of _ mg B] len by simp
  with ne show ?thesis by (simp add: thr_ok_def sz mg_def)
qed

lemma main_unfold:
  assumes vc: "valid_call dims phaseIn magIn output B s0"
  shows "robustUnwrapMain dims phaseIn magIn output B s0
         = bins (main_globals dims phaseIn output s0)
             (thresholds_of (main_risk dims magIn s0) (nbins B)) [0..<nbins B]
             (main_start dims phaseIn magIn output B s0)"
proof -
  obtain d0 d1 d2 where d: "dims = (d0, d1, d2)" by (cases dims) auto
  define g where "g = main_globals dims phaseIn output s0"
  define mg where "mg = main_risk dims magIn s0"
  define s2 where "s2 = s0\<lparr>heap := heap s0 @ [mg]\<rparr>"
  have c: "0 < d0" "0 < d1" "0 < d2" "85 < d0 * d1 * d2"
    "phaseIn < length (heap s0)" "magIn < length (heap s0)" "output < length (heap s0)"
    "output \<noteq> phaseIn" "d0 * d1 * d2 \<le> length (heap s0 ! phaseIn)"
    "d0 * d1 * d2 \<le> length (heap s0 ! magIn)" "d0 * d1 * d2 \<le> length (heap s0 ! output)"
    "B \<le> int NUMQUEUES"
    using vc by (simp_all add: valid_call_def d)
  have gs: "dim0 g = int d0" "dim1 g = int d1" "dim2 g = int d2" "sze g = d0 * d1 * d2"
    "phase g = phaseIn" "mag g = length (heap s0)" "unwrapped g = output"
    by (simp_all add: g_def main_globals_def d)
  have len: "length mg = d0 * d1 * d2" using c by (simp add: mg_def main_risk_def d)
  have sd: "0 \<le> default_seed d0" "default_seed d0 < int d0" "0 \<le> default_seed d1"
    "default_seed d1 < int d1" "0 \<le> default_seed d2" "default_seed d2 < int d2"
    using default_seed_range c by simp_all
  have main: "robustUnwrapMain dims phaseIn magIn output B s0
         = unwrap g (default_seed d0) (default_seed d1) (default_seed d2) B s2"
    using c sd by (simp add: robustUnwrapMain_def d Let_def g_def main_globals_def s2_def
        mg_def main_risk_def)
  have ib: "0 \<le> default_seed d0 + int d0 * (default_seed d1 + int d1 * default_seed d2)"
    "default_seed d0 + int d0 * (default_seed d1 + int d1 * default_seed d2) < int d0 * int d1 * int d2"
    using idx_bound[OF sd] by simp_all
  have nb: "nbins B \<le> NUMQUEUES" using c(12) by (auto simp: nbins_def NUMQUEUES_def)
  have h2: "heap s2 ! phaseIn = heap s0 ! phaseIn" "heap s2 ! output = heap s0 ! output"
    "heap s2 ! length (heap s0) = mg" "length (heap s2) = Suc (length (heap s0))"
    using c by (simp_all add: s2_def nth_append)
  have "unwrap g (default_seed d0) (default_seed d1) (default_seed d2) B s2
         = bins g (thresholds_of (take (sze g) (heap s2 ! mag g)) (nbins B)) [0..<nbins B]
             (seeded g (default_seed d0) (default_seed d1) (default_seed d2) (nbins B) s2)"
  proof (rule unwrap_unfold)
    show "nat (default_seed d0 + dim0 g * (default_seed d1 + dim1 g * default_seed d2)) < sze g"
      using ib by (simp add: gs nat_less_iff)
  qed (use c ib nb h2 len in \<open>simp_all add: gs\<close>)
  moreover have "take (sze g) (heap s2 ! mag g) = mg" using len by (simp add: gs h2)
  ultimately show ?thesis
    unfolding main by (simp add: g_def main_start_def d s2_def mg_def)
qed

lemma main_start_wf:
  assumes vc: "valid_call dims phaseIn magIn output B s0"
  shows "wf_state (main_globals dims phaseIn output s0) (heap s0 ! phaseIn)
           (main_risk dims magIn s0) (thresholds_of (main_risk dims magIn s0) (nbins B))
           (main_start dims phaseIn magIn output B s0)"
proof -
  obtain d0 d1 d2 where d: "dims = (d0, d1, d2)" by (cases dims) auto
  define g where "g = main_globals dims phaseIn output s0"
  define mg where "mg = main_risk dims magIn s0"
  define thr where "thr = thresholds_of mg (nbins B)"
  define s2 where "s2 = s0\<lparr>heap := heap s0 @ [mg]\<rparr>"
  define sx where "sx = default_seed d0"
  define sy where "sy = default_seed d1"
  define sz where "sz = default_seed d2"
  define sp where "sp = sx + int d0 * (sy + int d1 * sz)"
  define qe where "qe = \<lparr>qe_x = sx, qe_y = sy, qe_z = sz, qe_p = sp,
                          qe_v = heap s0 ! phaseIn ! nat sp\<rparr>"
  define s where "s = main_start dims phaseIn magIn output B s0"
  have c: "0 < d0" "0 < d1" "0 < d2" "85 < d0 * d1 * d2"
    "phaseIn < length (heap s0)" "magIn < length (heap s0)" "output < length (heap s0)"
    "output \<noteq> phaseIn" "d0 * d1 * d2 \<le> length (heap s0 ! phaseIn)"
    "d0 * d1 * d2 \<le> length (heap s0 ! magIn)" "d0 * d1 * d2 \<le> length (heap s0 ! output)"
    using vc by (simp_all add: valid_call_def d)
  have gs: "dim0 g = int d0" "dim1 g = int d1" "dim2 g = int d2" "sze g = d0 * d1 * d2"
    "phase g = phaseIn" "mag g = length (heap s0)" "unwrapped g = output"
    by (simp_all add: g_def main_globals_def d)
  have len: "length mg = d0 * d1 * d2" using c by (simp add: mg_def main_risk_def d)
  have lt: "length thr = nbins B" by (simp add: thr_def length_thresholds_of)
  have sd: "0 \<le> sx" "sx < int d0" "0 \<le> sy" "sy < int d1" "0 \<le> sz" "sz < int d2"
    using default_seed_range c by (simp_all add: sx_def sy_def sz_def)
  have ib: "0 \<le> sp" "sp < int d0 * int d1 * int d2"
    using idx_bound[OF sd] by (simp_all add: sp_def)
  then have nsp: "nat sp < d0 * d1 * d2" by (simp add: nat_less_iff)
  have eq: "entry_ok g qe" using sd by (simp add: entry_ok_def qe_def gs sp_def)
  have h2: "heap s2 ! phaseIn = heap s0 ! phaseIn" "heap s2 ! output = heap s0 ! output"
    "heap s2 ! length (heap s0) = mg" "length (heap s2) = Suc (length (heap s0))"
    using c by (simp_all add: s2_def nth_append)
  have S: "s = s2\<lparr>errcode := 0,
        heap := (heap s2)[output := ((heap s0 ! output)[85 := heap s0 ! phaseIn ! 85])
                                     [nat sp := heap s0 ! phaseIn ! nat sp]],
        stores := stores s2 @ [85, sp],
        flag := (replicate (d0 * d1 * d2) False)[nat sp := True],
        queues := (\<lambda>i. if i < nbins B then InitQueue sizeof_QUEUEENTRY else queues s2 i)
                        (0 := snd (Push (InitQueue sizeof_QUEUEENTRY) qe))\<rparr>"
  proof -
    have gd: "main_globals (d0, d1, d2) phaseIn output s0 = g"
      and md: "main_risk (d0, d1, d2) magIn s0 = mg" by (simp_all add: g_def mg_def d)
    show ?thesis
      by (simp add: s_def main_start_def d seeded_def Let_def gd md gs h2
        s2_def[symmetric] sx_def[symmetric] sy_def[symmetric]
        sz_def[symmetric] sp_def[symmetric] qe_def[symmetric])
  qed
  have fl: "flag s ! nat sp" using nsp by (simp add: S)
  have ov: "heap s ! output ! nat sp = heap s0 ! phaseIn ! nat sp"
    using c nsp by (simp add: S h2)
  have P: "qinv (snd (Push (InitQueue sizeof_QUEUEENTRY) qe))"
    "qcontents (snd (Push (InitQueue sizeof_QUEUEENTRY) qe)) = [qe]"
    using Push_ok[OF qinv_InitQueue, of sizeof_QUEUEENTRY qe]
    by (simp_all add: qcontents_InitQueue)
  have q: "\<forall>k < length thr. qinv (queues s k) \<and>
        (\<forall>e \<in> set (qcontents (queues s k)).
           entry_ok g e \<and> flag s ! nat (qe_p e) \<and> heap s ! unwrapped g ! nat (qe_p e) = qe_v e)"
  proof (intro allI impI)
    fix k assume k: "k < length thr"
    show "qinv (queues s k) \<and>
        (\<forall>e \<in> set (qcontents (queues s k)).
           entry_ok g e \<and> flag s ! nat (qe_p e) \<and> heap s ! unwrapped g ! nat (qe_p e) = qe_v e)"
    proof (cases "k = 0")
      case True
      have "queues s k = snd (Push (InitQueue sizeof_QUEUEENTRY) qe)"
        using True by (simp add: S)
      then show ?thesis using P eq fl ov by (simp add: gs qe_def)
    next
      case False
      have "queues s k = InitQueue sizeof_QUEUEENTRY"
        using False k by (simp add: S lt)
      then show ?thesis by (simp add: qinv_InitQueue qcontents_InitQueue)
    qed
  qed
  have "wf_state g (heap s0 ! phaseIn) mg thr s"
    unfolding wf_state_def
  proof (intro conjI)
    show "\<forall>k < length thr. qinv (queues s k) \<and>
        (\<forall>e \<in> set (qcontents (queues s k)).
           entry_ok g e \<and> flag s ! nat (qe_p e) \<and> heap s ! unwrapped g ! nat (qe_p e) = qe_v e)"
      by (rule q)
  qed (use c len in \<open>simp_all add: S gs h2\<close>)
  then show ?thesis by (simp add: g_def mg_def thr_def s_def)
qed

lemma main_total:
  assumes vc: "valid_call dims phaseIn magIn output B s0"
    and J: "\<And>i s qe rest q' s'. i < nbins B \<Longrightarrow>
              wf_state (main_globals dims phaseIn output s0) (heap s0 ! phaseIn)
                (main_risk dims magIn s0) (thresholds_of (main_risk dims magIn s0) (nbins B)) s \<Longrightarrow>
              J i s \<Longrightarrow>
              qcontents (queues s i) = qe # rest \<Longrightarrow> Pop (queues s i) = (0, Some qe, q') \<Longrightarrow>
              visit (main_globals dims phaseIn output s0)
                (thresholds_of (main_risk dims magIn s0) (nbins B)) i (Some qe)
                (s\<lparr>queues := (queues s)(i := q')\<rparr>) = Inr s' \<Longrightarrow> J i s'"
    and T: "\<And>i s. i < nbins B \<Longrightarrow>
              wf_state (main_globals dims phaseIn output s0) (heap s0 ! phaseIn)
                (main_risk dims magIn s0) (thresholds_of (main_risk dims magIn s0) (nbins B)) s \<Longrightarrow>
              J i s \<Longrightarrow> qcontents (queues s i) = [] \<Longrightarrow>
              J (Suc i) (s\<lparr>queues := (queues s)(i := TerminateQueue (queues s i))\<rparr>)"
    and J0: "J 0 (main_start dims phaseIn magIn output B s0)"
  shows "\<exists>s'. robustUnwrapMain dims phaseIn magIn output B s0 = Some (Inr s') \<and>
           wf_state (main_globals dims phaseIn output s0) (heap s0 ! phaseIn)
             (main_risk dims magIn s0) (thresholds_of (main_risk dims magIn s0) (nbins B)) s' \<and>
           J (nbins B) s'"
proof -
  define g where "g = main_globals dims phaseIn output s0"
  define mg where "mg = main_risk dims magIn s0"
  define thr where "thr = thresholds_of mg (nbins B)"
  have lt: "length thr = nbins B" by (simp add: thr_def length_thresholds_of)
  have v: "valid_globals g" unfolding g_def by (rule main_valid_globals[OF vc])
  have t: "thr_ok g mg thr" unfolding g_def mg_def thr_def by (rule main_thr_ok[OF vc])
  have w: "wf_state g (heap s0 ! phaseIn) mg thr (main_start dims phaseIn magIn output B s0)"
    unfolding g_def mg_def thr_def by (rule main_start_wf[OF vc])
  have "\<exists>s'. bins g thr [0..<length thr] (main_start dims phaseIn magIn output B s0)
                = Some (Inr s') \<and> wf_state g (heap s0 ! phaseIn) mg thr s' \<and> J (length thr) s'"
  proof (rule bins_total[where J = J, OF v t _ _ _ w J0])
    show "0 \<le> length thr" by simp
  next
    fix i s qe rest q' s'
    assume "i < length thr" "wf_state g (heap s0 ! phaseIn) mg thr s" "J i s"
      "qcontents (queues s i) = qe # rest" "Pop (queues s i) = (0, Some qe, q')"
      "visit g thr i (Some qe) (s\<lparr>queues := (queues s)(i := q')\<rparr>) = Inr s'"
    then show "J i s'"
      using J[of i s qe rest q' s'] by (simp add: length_thresholds_of g_def mg_def thr_def)
  next
    fix i s
    assume "i < length thr" "wf_state g (heap s0 ! phaseIn) mg thr s" "J i s"
      "qcontents (queues s i) = []"
    then show "J (Suc i) (s\<lparr>queues := (queues s)(i := TerminateQueue (queues s i))\<rparr>)"
      using T[of i s] by (simp add: length_thresholds_of g_def mg_def thr_def)
  qed
  then show ?thesis
    using main_unfold[OF vc] by (simp add: length_thresholds_of g_def mg_def thr_def)
qed

lemma main_simple:
  assumes vc: "valid_call dims phaseIn magIn output B s0"
    and Jq: "\<And>s q. J (s\<lparr>queues := q\<rparr>) = J s"
    and Jr: "\<And>i qe s s'. i < nbins B \<Longrightarrow>
              reach_step (main_globals dims phaseIn output s0) (heap s0 ! phaseIn)
                (main_risk dims magIn s0) (thresholds_of (main_risk dims magIn s0) (nbins B))
                i qe s s' \<Longrightarrow> J s \<Longrightarrow> J s'"
    and J0: "J (main_start dims phaseIn magIn output B s0)"
  shows "\<exists>s'. robustUnwrapMain dims phaseIn magIn output B s0 = Some (Inr s') \<and>
           wf_state (main_globals dims phaseIn output s0) (heap s0 ! phaseIn)
             (main_risk dims magIn s0) (thresholds_of (main_risk dims magIn s0) (nbins B)) s' \<and>
           J s'"
proof (rule main_total[where J = "\<lambda>i. J", OF vc _ _ J0])
  fix i s qe rest q' s'
  assume a: "i < nbins B"
    "wf_state (main_globals dims phaseIn output s0) (heap s0 ! phaseIn)
                (main_risk dims magIn s0) (thresholds_of (main_risk dims magIn s0) (nbins B)) s"
    "J s" "qcontents (queues s i) = qe # rest" "Pop (queues s i) = (0, Some qe, q')"
    "visit (main_globals dims phaseIn output s0)
                (thresholds_of (main_risk dims magIn s0) (nbins B)) i (Some qe)
                (s\<lparr>queues := (queues s)(i := q')\<rparr>) = Inr s'"
  have i: "i < length (thresholds_of (main_risk dims magIn s0) (nbins B))"
    using a(1) by (simp add: length_thresholds_of)
  show "J s'"
    by (rule simple_round[where J = J, OF main_valid_globals[OF vc] main_thr_ok[OF vc] i Jq
          Jr[OF a(1)] a(2,3,4,5,6)])
next
  fix i s
  assume "J s"
  then show "J (s\<lparr>queues := (queues s)(i := TerminateQueue (queues s i))\<rparr>)"
    by (simp add: Jq)
qed

section \<open>Facts about a call\<close>

lemma main_start_fields:
  assumes vc: "valid_call dims phaseIn magIn output B s0"
  shows "flag (main_start dims phaseIn magIn output B s0)
           = (replicate (nvoxels dims) False)[nat (seed_index dims) := True]"
    and "heap (main_start dims phaseIn magIn output B s0)
           = (heap s0 @ [main_risk dims magIn s0])
               [output := ((heap s0 ! output)[85 := heap s0 ! phaseIn ! 85])
                    [nat (seed_index dims) := heap s0 ! phaseIn ! nat (seed_index dims)]]"
    and "stores (main_start dims phaseIn magIn output B s0) = stores s0 @ [85, seed_index dims]"
    and "gerror_log (main_start dims phaseIn magIn output B s0) = gerror_log s0"
    and "0 \<le> seed_index dims" and "nat (seed_index dims) < nvoxels dims"
proof -
  obtain d0 d1 d2 where d: "dims = (d0, d1, d2)" by (cases dims) auto
  have c: "0 < d0" "0 < d1" "0 < d2" "phaseIn < length (heap s0)" "output < length (heap s0)"
    using vc by (simp_all add: valid_call_def d)
  have sd: "0 \<le> default_seed d0" "default_seed d0 < int d0" "0 \<le> default_seed d1"
    "default_seed d1 < int d1" "0 \<le> default_seed d2" "default_seed d2 < int d2"
    using default_seed_range c by simp_all
  from idx_bound[OF sd] show "0 \<le> seed_index dims" "nat (seed_index dims) < nvoxels dims"
    by (simp_all add: seed_index_def nvoxels_def d nat_less_iff)
  show "flag (main_start dims phaseIn magIn output B s0)
           = (replicate (nvoxels dims) False)[nat (seed_index dims) := True]"
    by (simp add: main_start_def d seeded_def Let_def main_globals_def seed_index_def nvoxels_def)
  show "heap (main_start dims phaseIn magIn output B s0)
           = (heap s0 @ [main_risk dims magIn s0])
               [output := ((heap s0 ! output)[85 := heap s0 ! phaseIn ! 85])
                    [nat (seed_index dims) := heap s0 ! phaseIn ! nat (seed_index dims)]]"
    using c by (simp add: main_start_def d seeded_def Let_def main_globals_def seed_index_def
        nth_append)
  show "stores (main_start dims phaseIn magIn output B s0) = stores s0 @ [85, seed_index dims]"
    by (simp add: main_start_def d seeded_def Let_def main_globals_def seed_index_def)
  show "gerror_log (main_start dims phaseIn magIn output B s0) = gerror_log s0"
    by (simp add: main_start_def d seeded_def Let_def)
qed

lemma main_globals_fields:
  "sze (main_globals dims phaseIn output s0) = nvoxels dims"
  "phase (main_globals dims phaseIn output s0) = phaseIn"
  "unwrapped (main_globals dims phaseIn output s0) = output"
  "mag (main_globals dims phaseIn output s0) = length (heap s0)"
  by (simp_all add: main_globals_def nvoxels_def split: prod.splits)



text \<open>What a step leaves alone.\<close>

lemma reach_step_fields:
  assumes v: "valid_globals g" and st: "reach_step g ph mg thr i qe s s'"
  shows "\<exists>nqe. entry_ok g nqe \<and> nat (qe_p nqe) < sze g \<and> 0 \<le> qe_p nqe \<and>
    \<not> flag s ! nat (qe_p nqe) \<and> adjacent qe nqe \<and>
    qe_v nqe = unwrap_value (ph ! nat (qe_p nqe)) (qe_v qe) \<and>
    flag s' = (flag s)[nat (qe_p nqe) := True] \<and>
    heap s' = (heap s)[unwrapped g := (heap s ! unwrapped g)[nat (qe_p nqe) := qe_v nqe]] \<and>
    stores s' = stores s @ [qe_p nqe] \<and> gerror_log s' = gerror_log s \<and> errcode s' = errcode s"
proof -
  from st obtain nqe where n: "s' = reach g i nqe s" "entry_ok g nqe"
    "\<not> flag s ! nat (qe_p nqe)" "adjacent qe nqe"
    "qe_v nqe = unwrap_value (ph ! nat (qe_p nqe)) (qe_v qe)"
    by (auto simp: reach_step_def)
  from entry_ok_range[OF v n(2)] n show ?thesis
    by (intro exI[of _ nqe]) (simp add: reach_def)
qed



lemma thresholds_of_eq:
  "minmax ms = (mn, mx) \<Longrightarrow>
   thresholds_of ms N = polefieldthresholds mn ((100001 / 100000) * (mx - mn)) N"
  by (simp add: thresholds_of_def)

lemma minmax_le:
  assumes "ms \<noteq> []" "minmax ms = (mn, mx)"
  shows "mn \<le> mx"
proof -
  from assms(1) obtain m where m: "m \<in> set ms" by (cases ms) auto
  from minmax_bounds[OF assms(2) m] show ?thesis by simp
qed













section \<open>The run reaches every voxel\<close>

lemma entry_ok_coords:
  assumes v: "valid_globals g" and e: "entry_ok g e"
  shows "qe_x e = qe_p e mod dim0 g" "qe_y e = (qe_p e div dim0 g) mod dim1 g"
    "qe_z e = qe_p e div dim0 g div dim1 g"
proof -
  have d: "0 < dim0 g" "0 < dim1 g" using v by (simp_all add: valid_globals_def)
  have r: "0 \<le> qe_x e" "qe_x e < dim0 g" "0 \<le> qe_y e" "qe_y e < dim1 g"
    and p: "qe_p e = qe_x e + dim0 g * (qe_y e + dim1 g * qe_z e)"
    using e by (simp_all add: entry_ok_def)
  show "qe_x e = qe_p e mod dim0 g" using r by (simp add: p)
  have q: "qe_p e div dim0 g = qe_y e + dim1 g * qe_z e"
    using r d by (simp add: p)
  show "qe_y e = (qe_p e div dim0 g) mod dim1 g" using r by (simp add: q)
  show "qe_z e = qe_p e div dim0 g div dim1 g" using r d by (simp add: q)
qed

lemma entry_ok_inj:
  assumes "valid_globals g" "entry_ok g a" "entry_ok g b" "qe_p a = qe_p b"
  shows "qe_x a = qe_x b" "qe_y a = qe_y b" "qe_z a = qe_z b"
  using entry_ok_coords[OF assms(1,2)] entry_ok_coords[OF assms(1,3)] assms(4) by simp_all

lemma entry_ok_decode:
  assumes v: "valid_globals g" and p: "p < sze g"
  shows "\<exists>e. entry_ok g e \<and> qe_p e = int p"
proof -
  define P where "P = int p"
  have d: "0 < dim0 g" "0 < dim1 g" "0 < dim2 g" and sz: "int (sze g) = dim0 g * dim1 g * dim2 g"
    using v by (simp_all add: valid_globals_def)
  have P: "0 \<le> P" "P < dim0 g * dim1 g * dim2 g" using p sz by (simp_all add: P_def)
  define e where "e = \<lparr>qe_x = P mod dim0 g, qe_y = (P div dim0 g) mod dim1 g,
                         qe_z = P div dim0 g div dim1 g, qe_p = P, qe_v = 0\<rparr>"
  have "P div dim0 g div dim1 g < dim2 g"
  proof (rule ccontr)
    assume "\<not> P div dim0 g div dim1 g < dim2 g"
    then have ge: "dim2 g \<le> P div (dim0 g * dim1 g)"
      using d by (simp add: zdiv_zmult2_eq)
    have k: "0 < dim0 g * dim1 g" using d by simp
    have "(dim0 g * dim1 g) * dim2 g \<le> (dim0 g * dim1 g) * (P div (dim0 g * dim1 g))"
      using ge k by (intro mult_left_mono) simp_all
    also have "\<dots> \<le> P"
      using mult_div_mod_eq[of "dim0 g * dim1 g" P] pos_mod_sign[OF k, of P] by linarith
    finally show False using P by simp
  qed
  moreover have "0 \<le> P div dim0 g div dim1 g" using P d by (simp add: pos_imp_zdiv_nonneg_iff)
  moreover have "P = P mod dim0 g + dim0 g * ((P div dim0 g) mod dim1 g
                      + dim1 g * (P div dim0 g div dim1 g))" by simp
  ultimately have "entry_ok g e"
    using d by (simp add: entry_ok_def e_def)
  then show ?thesis by (intro exI[of _ e]) (simp add: e_def P_def)
qed


lemma step_towards:
  assumes e0: "entry_ok g e0" and e: "entry_ok g e"
    and ne: "qe_x e \<noteq> qe_x e0 \<or> qe_y e \<noteq> qe_y e0 \<or> qe_z e \<noteq> qe_z e0"
  shows "\<exists>m. entry_ok g m \<and> adjacent m e \<and>
           \<bar>qe_x m - qe_x e0\<bar> + \<bar>qe_y m - qe_y e0\<bar> + \<bar>qe_z m - qe_z e0\<bar>
           < \<bar>qe_x e - qe_x e0\<bar> + \<bar>qe_y e - qe_y e0\<bar> + \<bar>qe_z e - qe_z e0\<bar>"
proof -
  consider "qe_x e0 < qe_x e" | "qe_x e < qe_x e0" | "qe_y e0 < qe_y e" | "qe_y e < qe_y e0"
    | "qe_z e0 < qe_z e" | "qe_z e < qe_z e0"
    using ne by linarith
  then show ?thesis
  proof cases
    case 1
    then show ?thesis using e0 e
      by (intro exI[of _ "e\<lparr>qe_x := qe_x e - 1, qe_p := qe_p e - 1\<rparr>"])
         (simp add: entry_ok_def adjacent_def)
  next
    case 2
    then show ?thesis using e0 e
      by (intro exI[of _ "e\<lparr>qe_x := qe_x e + 1, qe_p := qe_p e + 1\<rparr>"])
         (simp add: entry_ok_def adjacent_def)
  next
    case 3
    then show ?thesis using e0 e
      by (intro exI[of _ "e\<lparr>qe_y := qe_y e - 1, qe_p := qe_p e - dim0 g\<rparr>"])
         (simp add: entry_ok_def adjacent_def algebra_simps)
  next
    case 4
    then show ?thesis using e0 e
      by (intro exI[of _ "e\<lparr>qe_y := qe_y e + 1, qe_p := qe_p e + dim0 g\<rparr>"])
         (simp add: entry_ok_def adjacent_def algebra_simps)
  next
    case 5
    then show ?thesis using e0 e
      by (intro exI[of _ "e\<lparr>qe_z := qe_z e - 1, qe_p := qe_p e - dim0 g * dim1 g\<rparr>"])
         (simp add: entry_ok_def adjacent_def algebra_simps)
  next
    case 6
    then show ?thesis using e0 e
      by (intro exI[of _ "e\<lparr>qe_z := qe_z e + 1, qe_p := qe_p e + dim0 g * dim1 g\<rparr>"])
         (simp add: entry_ok_def adjacent_def algebra_simps)
  qed
qed

lemma flood_connected:
  assumes e0: "entry_ok g e0" and f0: "flag s ! nat (qe_p e0)"
    and cl: "\<forall>e. entry_ok g e \<and> flag s ! nat (qe_p e) \<longrightarrow> closed g s e"
  shows "entry_ok g e \<Longrightarrow> flag s ! nat (qe_p e)"
proof (induction "nat (\<bar>qe_x e - qe_x e0\<bar> + \<bar>qe_y e - qe_y e0\<bar> + \<bar>qe_z e - qe_z e0\<bar>)"
    arbitrary: e rule: less_induct)
  case less
  show ?case
  proof (cases "qe_x e \<noteq> qe_x e0 \<or> qe_y e \<noteq> qe_y e0 \<or> qe_z e \<noteq> qe_z e0")
    case False
    then have "qe_p e = qe_p e0"
      using entry_ok_same_coords[OF less.prems e0] by simp
    with f0 show ?thesis by simp
  next
    case True
    from step_towards[OF e0 less.prems True] obtain m where
      m: "entry_ok g m" "adjacent m e"
        "\<bar>qe_x m - qe_x e0\<bar> + \<bar>qe_y m - qe_y e0\<bar> + \<bar>qe_z m - qe_z e0\<bar>
           < \<bar>qe_x e - qe_x e0\<bar> + \<bar>qe_y e - qe_y e0\<bar> + \<bar>qe_z e - qe_z e0\<bar>" by blast
    have "flag s ! nat (qe_p m)"
      using m(3) by (intro less.hyps[OF _ m(1)]) simp
    with cl m(1) have "closed g s m" by blast
    then show ?thesis using m(2) less.prems by (auto simp: closed_def)
  qed
qed

lemma reach_effects:
  assumes v: "valid_globals g" and i: "i < length thr"
    and st: "reach_step g ph mg thr i qe s s'"
  shows "\<exists>nqe. entry_ok g nqe \<and> nat (qe_p nqe) < length (flag s) \<and>
           flag s' = (flag s)[nat (qe_p nqe) := True] \<and>
           (\<forall>k. k \<noteq> i \<longrightarrow> queues s' k = queues s k) \<and>
           qcontents (queues s' i) = qcontents (queues s i) @ [nqe]"
proof -
  from st obtain nqe where n: "s' = reach g i nqe s" "entry_ok g nqe"
    and w: "wf_state g ph mg thr s"
    by (auto simp: reach_step_def)
  have qi: "qinv (queues s i)" and len: "length (flag s) = sze g"
    using w i by (simp_all add: wf_state_def)
  from Push_ok[OF qi, of nqe] entry_ok_range[OF v n(2)] n len show ?thesis
    by (intro exI[of _ nqe]) (simp add: reach_def)
qed

lemma waiting_mono:
  assumes "waiting N s p"
    and "\<forall>k < N. set (qcontents (queues s k)) \<subseteq> set (qcontents (queues s' k))"
  shows "waiting N s' p"
  using assms unfolding waiting_def by blast

lemma closed_mono:
  assumes "closed g s e" and "\<forall>p. flag s ! p \<longrightarrow> flag s' ! p"
  shows "closed g s' e"
  using assms unfolding closed_def by blast

lemma reach_covered_except:
  assumes v: "valid_globals g" and i: "i < length thr"
    and st: "reach_step g ph mg thr i qe s s'"
    and c: "covered_except g (length thr) s p"
  shows "covered_except g (length thr) s' p"
proof -
  from reach_effects[OF v i st] obtain nqe where
    n: "entry_ok g nqe" "nat (qe_p nqe) < length (flag s)"
       "flag s' = (flag s)[nat (qe_p nqe) := True]"
       "\<forall>k. k \<noteq> i \<longrightarrow> queues s' k = queues s k"
       "qcontents (queues s' i) = qcontents (queues s i) @ [nqe]" by blast
  have sub: "\<forall>k < length thr. set (qcontents (queues s k)) \<subseteq> set (qcontents (queues s' k))"
    using n(4,5) by (metis set_append sup_ge1 subset_refl)
  have fm: "\<forall>p. flag s ! p \<longrightarrow> flag s' ! p"
    using n(2,3) by (simp add: nth_list_update)
  show ?thesis
    unfolding covered_except_def
  proof (intro allI impI)
    fix e assume e: "entry_ok g e \<and> flag s' ! nat (qe_p e) \<and> qe_p e \<noteq> p"
    show "waiting (length thr) s' (qe_p e) \<or> closed g s' e"
    proof (cases "nat (qe_p e) = nat (qe_p nqe)")
      case True
      have "0 \<le> qe_p e" "0 \<le> qe_p nqe"
        using entry_ok_range[OF v] e n(1) by simp_all
      with True have "qe_p nqe = qe_p e" by simp
      then have "waiting (length thr) s' (qe_p e)"
        unfolding waiting_def using i n(5) by (intro exI[of _ i]) auto
      then show ?thesis by simp
    next
      case False
      then have "flag s ! nat (qe_p e)" using e n(3) by (simp add: nth_list_update split: if_splits)
      with c e have "waiting (length thr) s (qe_p e) \<or> closed g s e"
        by (simp add: covered_except_def)
      then show ?thesis using waiting_mono[OF _ sub] closed_mono[OF _ fm] by blast
    qed
  qed
qed

lemma reach_steps_covered_except:
  assumes v: "valid_globals g" and i: "i < length thr"
    and st: "(reach_step g ph mg thr i qe)\<^sup>*\<^sup>* s s'"
    and c: "covered_except g (length thr) s p"
  shows "covered_except g (length thr) s' p \<and> (\<forall>k. k \<noteq> i \<longrightarrow> queues s' k = queues s k)
         \<and> (\<forall>q. flag s ! q \<longrightarrow> flag s' ! q)"
  using st
proof (induction rule: rtranclp_induct)
  case base
  show ?case using c by simp
next
  case (step y z)
  from reach_effects[OF v i step.hyps(2)] obtain nqe :: QUEUEENTRY where
    n: "nat (qe_p nqe) < length (flag y)" "flag z = (flag y)[nat (qe_p nqe) := True]"
       "\<forall>k. k \<noteq> i \<longrightarrow> queues z k = queues y k" by blast
  have "\<forall>q. flag y ! q \<longrightarrow> flag z ! q" using n(1,2) by (simp add: nth_list_update)
  with reach_covered_except[OF v i step.hyps(2)] step.IH n(3) show ?case by simp
qed

lemma pop_covered_except:
  assumes c: "covered g N s" and q: "qcontents (queues s i) = qe # rest"
    and q': "qcontents q' = rest"
  shows "covered_except g N (s\<lparr>queues := (queues s)(i := q')\<rparr>) (qe_p qe)"
  unfolding covered_except_def
proof (intro allI impI)
  fix e assume e: "entry_ok g e \<and> flag (s\<lparr>queues := (queues s)(i := q')\<rparr>) ! nat (qe_p e)
      \<and> qe_p e \<noteq> qe_p qe"
  then have "waiting N s (qe_p e) \<or> closed g s e" using c by (simp add: covered_def)
  then show "waiting N (s\<lparr>queues := (queues s)(i := q')\<rparr>) (qe_p e)
      \<or> closed g (s\<lparr>queues := (queues s)(i := q')\<rparr>) e"
  proof
    assume "waiting N s (qe_p e)"
    then obtain k e' where k: "k < N" "e' \<in> set (qcontents (queues s k))" "qe_p e' = qe_p e"
      by (auto simp: waiting_def)
    have "e' \<in> set (qcontents (queues (s\<lparr>queues := (queues s)(i := q')\<rparr>) k))"
    proof (cases "k = i")
      case True
      with k(2,3) e q have "e' \<in> set rest" by auto
      with True q' show ?thesis by simp
    next
      case False
      with k(2) show ?thesis by simp
    qed
    with k(1,3) show ?thesis unfolding waiting_def by blast
  next
    assume "closed g s e"
    then show ?thesis by (simp add: closed_def)
  qed
qed

lemma defer_covered:
  assumes c: "covered_except g N s (qe_p qe)" and j: "j < N" and qi: "qinv (queues s j)"
  shows "covered g N (s\<lparr>queues := (queues s)(j := snd (Push (queues s j) qe))\<rparr>)"
  unfolding covered_def
proof (intro allI impI)
  define s' where "s' = s\<lparr>queues := (queues s)(j := snd (Push (queues s j) qe))\<rparr>"
  have P: "qcontents (queues s' j) = qcontents (queues s j) @ [qe]"
    using Push_ok[OF qi, of qe] by (simp add: s'_def)
  have sub: "\<forall>k < N. set (qcontents (queues s k)) \<subseteq> set (qcontents (queues s' k))"
  proof (intro allI impI)
    fix k show "set (qcontents (queues s k)) \<subseteq> set (qcontents (queues s' k))"
      using P by (cases "k = j") (auto simp: s'_def)
  qed
  fix e assume e: "entry_ok g e \<and> flag (s\<lparr>queues := (queues s)(j := snd (Push (queues s j) qe))\<rparr>)
      ! nat (qe_p e)"
  show "waiting N (s\<lparr>queues := (queues s)(j := snd (Push (queues s j) qe))\<rparr>) (qe_p e)
      \<or> closed g (s\<lparr>queues := (queues s)(j := snd (Push (queues s j) qe))\<rparr>) e"
    unfolding s'_def[symmetric]
  proof (cases "qe_p e = qe_p qe")
    case True
    then have "waiting N s' (qe_p e)"
      unfolding waiting_def using j P by (intro exI[of _ j]) auto
    then show "waiting N s' (qe_p e) \<or> closed g s' e" by simp
  next
    case False
    with c e have "waiting N s (qe_p e) \<or> closed g s e"
      by (simp add: covered_except_def)
    then show "waiting N s' (qe_p e) \<or> closed g s' e"
      using waiting_mono[OF _ sub] by (auto simp: closed_def s'_def)
  qed
qed

lemma expand_covered:
  assumes v: "valid_globals g" and c: "covered_except g N s (qe_p qe)"
    and cl: "closed g s qe" and e: "entry_ok g qe"
  shows "covered g N s"
  unfolding covered_def
proof (intro allI impI)
  fix a assume a: "entry_ok g a \<and> flag s ! nat (qe_p a)"
  show "waiting N s (qe_p a) \<or> closed g s a"
  proof (cases "qe_p a = qe_p qe")
    case True
    from entry_ok_inj[OF v _ e True] a have "adjacent a = adjacent qe"
      by (auto simp: adjacent_def fun_eq_iff)
    with cl show ?thesis by (simp add: closed_def)
  next
    case False
    with c a show ?thesis by (simp add: covered_except_def)
  qed
qed

lemma covered_round:
  assumes v: "valid_globals g" and t: "thr_ok g mg thr" and i: "i < length thr"
    and w: "wf_state g ph mg thr s"
    and J: "(\<forall>k < i. qcontents (queues s k) = []) \<and> covered g (length thr) s \<and> flag s ! sp"
    and c: "qcontents (queues s i) = qe # rest" and p: "Pop (queues s i) = (0, Some qe, q')"
    and vi: "visit g thr i (Some qe) (s\<lparr>queues := (queues s)(i := q')\<rparr>) = Inr s'"
  shows "(\<forall>k < i. qcontents (queues s' k) = []) \<and> covered g (length thr) s' \<and> flag s' ! sp"
proof -
  from pop_state[OF w i c] p have q': "qcontents q' = rest"
    and w1: "wf_state g ph mg thr (s\<lparr>queues := (queues s)(i := q')\<rparr>)"
    and e: "entry_ok g qe" and f: "flag s ! nat (qe_p qe)"
    and h: "heap s ! unwrapped g ! nat (qe_p qe) = qe_v qe" by auto
  define s1 where "s1 = s\<lparr>queues := (queues s)(i := q')\<rparr>"
  have f1: "flag s1 ! nat (qe_p qe)" and h1: "heap s1 ! unwrapped g ! nat (qe_p qe) = qe_v qe"
    using f h by (simp_all add: s1_def)
  have ce: "covered_except g (length thr) s1 (qe_p qe)"
    unfolding s1_def using J by (intro pop_covered_except[OF _ c q']) simp
  have em: "\<forall>k < i. qcontents (queues s1 k) = []" using J by (simp add: s1_def)
  have fs: "flag s1 ! sp" using J by (simp add: s1_def)
  from iteration[OF v t i w1[folded s1_def] e f1 h1] vi[folded s1_def]
  consider j where "i < j" "j < length thr"
      "s' = s1\<lparr>queues := (queues s1)(j := snd (Push (queues s1 j) qe))\<rparr>"
    | "(reach_step g ph mg thr i qe)\<^sup>*\<^sup>* s1 s'" "closed g s' qe"
    by auto
  then show ?thesis
  proof cases
    case 1
    have qi: "qinv (queues s1 j)" using w1 1(2) by (simp add: wf_state_def s1_def)
    have "covered g (length thr) s'"
      unfolding 1(3) by (rule defer_covered[OF ce 1(2) qi])
    moreover have "\<forall>k < i. qcontents (queues s' k) = []" using em 1(1) by (simp add: 1(3))
    moreover have "flag s' ! sp" using fs by (simp add: 1(3))
    ultimately show ?thesis by simp
  next
    case 2
    from reach_steps_covered_except[OF v i 2(1) ce] have
      r: "covered_except g (length thr) s' (qe_p qe)" "\<forall>k. k \<noteq> i \<longrightarrow> queues s' k = queues s1 k"
         "\<forall>q. flag s1 ! q \<longrightarrow> flag s' ! q" by simp_all
    have "covered g (length thr) s'" by (rule expand_covered[OF v r(1) 2(2) e])
    moreover have "\<forall>k < i. qcontents (queues s' k) = []" using em r(2) by simp
    moreover have "flag s' ! sp" using fs r(3) by simp
    ultimately show ?thesis by simp
  qed
qed

lemma run_reaches_all:
  assumes vc: "valid_call dims phaseIn magIn output B s0"
  shows "\<exists>s'. robustUnwrapMain dims phaseIn magIn output B s0 = Some (Inr s') \<and>
           length (flag s') = nvoxels dims \<and> (\<forall>p < nvoxels dims. flag s' ! p)"
proof -
  define g where "g = main_globals dims phaseIn output s0"
  define mg where "mg = main_risk dims magIn s0"
  define thr where "thr = thresholds_of mg (nbins B)"
  define sp where "sp = nat (seed_index dims)"
  define J where "J = (\<lambda>i (s::ustate). (\<forall>k < i. qcontents (queues s k) = []) \<and>
      covered g (length thr) s \<and> flag s ! sp)"
  have lt: "length thr = nbins B" by (simp add: thr_def length_thresholds_of)
  have v: "valid_globals g" unfolding g_def by (rule main_valid_globals[OF vc])
  have t: "thr_ok g mg thr" unfolding g_def mg_def thr_def by (rule main_thr_ok[OF vc])
  note F = main_start_fields[OF vc]
  obtain d0 d1 d2 where d: "dims = (d0, d1, d2)" by (cases dims) auto
  define e0 where "e0 = \<lparr>qe_x = default_seed d0, qe_y = default_seed d1, qe_z = default_seed d2,
      qe_p = seed_index dims, qe_v = heap s0 ! phaseIn ! nat (seed_index dims)\<rparr>"
  have c: "0 < d0" "0 < d1" "0 < d2" using vc by (simp_all add: valid_call_def d)
  have e0: "entry_ok g e0"
    using default_seed_range c
    by (simp add: entry_ok_def e0_def g_def main_globals_def d seed_index_def)
  have q0: "queues (main_start dims phaseIn magIn output B s0) 0
              = snd (Push (InitQueue sizeof_QUEUEENTRY) e0)"
    using vc
    by (simp add: main_start_def d seeded_def Let_def e0_def seed_index_def main_globals_def
        nth_append valid_call_def)
  have c0: "qcontents (queues (main_start dims phaseIn magIn output B s0) 0) = [e0]"
    unfolding q0 using Push_ok[OF qinv_InitQueue, of sizeof_QUEUEENTRY e0]
    by (simp add: qcontents_InitQueue)
  have "\<exists>s'. robustUnwrapMain dims phaseIn magIn output B s0 = Some (Inr s') \<and>
           wf_state (main_globals dims phaseIn output s0) (heap s0 ! phaseIn)
             (main_risk dims magIn s0) (thresholds_of (main_risk dims magIn s0) (nbins B)) s' \<and>
           J (nbins B) s'"
  proof (rule main_total[where J = J, OF vc])
    fix i s qe rest q' s'
    assume a: "i < nbins B"
      "wf_state (main_globals dims phaseIn output s0) (heap s0 ! phaseIn)
                (main_risk dims magIn s0) (thresholds_of (main_risk dims magIn s0) (nbins B)) s"
      "J i s" "qcontents (queues s i) = qe # rest" "Pop (queues s i) = (0, Some qe, q')"
      "visit (main_globals dims phaseIn output s0)
                (thresholds_of (main_risk dims magIn s0) (nbins B)) i (Some qe)
                (s\<lparr>queues := (queues s)(i := q')\<rparr>) = Inr s'"
    show "J i s'"
      unfolding J_def
      by (rule covered_round[OF v t _ a(2)[folded g_def mg_def thr_def] a(3)[unfolded J_def]
            a(4,5) a(6)[folded g_def mg_def thr_def]]) (simp add: lt a(1))
  next
    fix i s
    assume a: "i < nbins B"
      "wf_state (main_globals dims phaseIn output s0) (heap s0 ! phaseIn)
                (main_risk dims magIn s0) (thresholds_of (main_risk dims magIn s0) (nbins B)) s"
      "J i s" "qcontents (queues s i) = []"
    have qi: "qinv (queues s i)" using a(1,2) by (simp add: wf_state_def length_thresholds_of)
    define s' where "s' = s\<lparr>queues := (queues s)(i := TerminateQueue (queues s i))\<rparr>"
    have same: "qcontents (queues s' k) = qcontents (queues s k)" for k
      using Terminate_ok(2)[OF qi a(4)] a(4) by (cases "k = i") (simp_all add: s'_def)
    have "covered g (length thr) s'"
      using a(3) unfolding J_def covered_def waiting_def closed_def same
      by (simp add: s'_def)
    moreover have "\<forall>k < Suc i. qcontents (queues s' k) = []"
      using a(3,4) unfolding J_def same by (auto simp: less_Suc_eq)
    moreover have "flag s' ! sp" using a(3) by (simp add: J_def s'_def)
    ultimately show "J (Suc i) (s\<lparr>queues := (queues s)(i := TerminateQueue (queues s i))\<rparr>)"
      unfolding J_def s'_def by simp
  next
    have fl: "flag (main_start dims phaseIn magIn output B s0) ! sp"
      using F(6) by (simp add: F(1) sp_def)
    have "covered g (length thr) (main_start dims phaseIn magIn output B s0)"
      unfolding covered_def
    proof (intro allI impI)
      fix e assume e: "entry_ok g e \<and> flag (main_start dims phaseIn magIn output B s0) ! nat (qe_p e)"
      have "nat (qe_p e) < nvoxels dims" "0 \<le> qe_p e"
        using entry_ok_range[OF v] e by (simp_all add: g_def main_globals_fields)
      then have "nat (qe_p e) = nat (seed_index dims)"
        using e by (cases "nat (qe_p e) = nat (seed_index dims)") (simp_all add: F(1))
      then have "qe_p e = qe_p e0" using \<open>0 \<le> qe_p e\<close> F(5) by (simp add: e0_def)
      then have "waiting (length thr) (main_start dims phaseIn magIn output B s0) (qe_p e)"
        unfolding waiting_def using c0 nbins_ge2[of B]
        by (intro exI[of _ 0]) (simp add: lt)
      then show "waiting (length thr) (main_start dims phaseIn magIn output B s0) (qe_p e)
          \<or> closed g (main_start dims phaseIn magIn output B s0) e" by simp
    qed
    with fl show "J 0 (main_start dims phaseIn magIn output B s0)" by (simp add: J_def)
  qed
  then obtain s' where s': "robustUnwrapMain dims phaseIn magIn output B s0 = Some (Inr s')"
    "wf_state g (heap s0 ! phaseIn) mg thr s'" "J (nbins B) s'"
    unfolding g_def mg_def thr_def by blast
  have cl: "\<forall>e. entry_ok g e \<and> flag s' ! nat (qe_p e) \<longrightarrow> closed g s' e"
    using s'(3) unfolding J_def covered_def waiting_def by (auto simp: lt)
  have f0: "flag s' ! nat (qe_p e0)" using s'(3) by (simp add: J_def sp_def e0_def)
  have len: "length (flag s') = nvoxels dims"
    using s'(2) by (simp add: wf_state_def g_def main_globals_fields)
  have "\<forall>p < nvoxels dims. flag s' ! p"
  proof (intro allI impI)
    fix p assume "p < nvoxels dims"
    then obtain e where e: "entry_ok g e" "qe_p e = int p"
      using entry_ok_decode[OF v, of p] by (auto simp: g_def main_globals_fields)
    from flood_connected[OF e0 f0 cl e(1)] e(2) show "flag s' ! p" by simp
  qed
  with s'(1) len show ?thesis by blast
qed

lemma count_list_distinct:
  "distinct xs \<Longrightarrow> x \<in> set xs \<Longrightarrow> count_list xs x = 1"
  by (induction xs) (auto simp: count_notin)

lemma run_store_order:
  assumes vc: "valid_call dims phaseIn magIn output B s0"
  shows "\<exists>s' rest. robustUnwrapMain dims phaseIn magIn output B s0 = Some (Inr s') \<and>
           stores s' = stores s0 @ 85 # rest \<and> distinct rest \<and>
           set rest = {int p |p. p < nvoxels dims \<and> flag s' ! p}"
proof -
  define g where "g = main_globals dims phaseIn output s0"
  define J where "J = (\<lambda>s::ustate. length (flag s) = nvoxels dims \<and>
      (\<exists>rest. stores s = stores s0 @ 85 # rest \<and> distinct rest \<and>
         set rest = {int p |p. p < nvoxels dims \<and> flag s ! p}))"
  have v: "valid_globals g" unfolding g_def by (rule main_valid_globals[OF vc])
  have "\<exists>s'. robustUnwrapMain dims phaseIn magIn output B s0 = Some (Inr s') \<and>
           wf_state (main_globals dims phaseIn output s0) (heap s0 ! phaseIn)
             (main_risk dims magIn s0) (thresholds_of (main_risk dims magIn s0) (nbins B)) s' \<and>
           J s'"
  proof (rule main_simple[where J = J, OF vc])
    show "J (s\<lparr>queues := q\<rparr>) = J s" for s q by (simp add: J_def)
  next
    fix i qe s s'
    assume st: "reach_step (main_globals dims phaseIn output s0) (heap s0 ! phaseIn)
                (main_risk dims magIn s0) (thresholds_of (main_risk dims magIn s0) (nbins B))
                i qe s s'" and Js: "J s"
    from reach_step_fields[OF v st[folded g_def]] obtain nqe :: QUEUEENTRY where
      n: "nat (qe_p nqe) < sze g" "0 \<le> qe_p nqe" "\<not> flag s ! nat (qe_p nqe)"
         "flag s' = (flag s)[nat (qe_p nqe) := True]" "stores s' = stores s @ [qe_p nqe]"
      by blast
    from Js obtain rest where r: "length (flag s) = nvoxels dims"
      "stores s = stores s0 @ 85 # rest" "distinct rest"
      "set rest = {int p |p. p < nvoxels dims \<and> flag s ! p}" by (auto simp: J_def)
    have sz: "sze g = nvoxels dims" by (simp add: g_def main_globals_fields)
    have notin: "qe_p nqe \<notin> set rest"
    proof
      assume "qe_p nqe \<in> set rest"
      then obtain p where "qe_p nqe = int p" "flag s ! p" unfolding r(4) by blast
      with n(3) show False by simp
    qed
    have "{int p |p. p < nvoxels dims \<and> flag s' ! p}
          = insert (qe_p nqe) {int p |p. p < nvoxels dims \<and> flag s ! p}"
    proof (intro set_eqI iffI)
      fix x assume "x \<in> {int p |p. p < nvoxels dims \<and> flag s' ! p}"
      then obtain p where p: "x = int p" "p < nvoxels dims" "flag s' ! p" by blast
      show "x \<in> insert (qe_p nqe) {int p |p. p < nvoxels dims \<and> flag s ! p}"
      proof (cases "p = nat (qe_p nqe)")
        case True
        then show ?thesis using p(1) n(2) by simp
      next
        case False
        then have "flag s ! p" using p(3) n(4) by simp
        then show ?thesis using p(1,2) by blast
      qed
    next
      fix x assume "x \<in> insert (qe_p nqe) {int p |p. p < nvoxels dims \<and> flag s ! p}"
      then consider "x = qe_p nqe" | p where "x = int p" "p < nvoxels dims" "flag s ! p"
        by blast
      then show "x \<in> {int p |p. p < nvoxels dims \<and> flag s' ! p}"
      proof cases
        case 1
        have "flag s' ! nat (qe_p nqe)" using n(1,4) r(1) sz by simp
        then show ?thesis using 1 n(1,2) sz by (intro CollectI exI[of _ "nat (qe_p nqe)"]) simp
      next
        case 2
        have "flag s' ! p" using 2(3) n(1,4) r(1) sz by (simp add: nth_list_update)
        then show ?thesis using 2(1,2) by blast
      qed
    qed
    then have "stores s' = stores s0 @ 85 # (rest @ [qe_p nqe]) \<and> distinct (rest @ [qe_p nqe]) \<and>
         set (rest @ [qe_p nqe]) = {int p |p. p < nvoxels dims \<and> flag s' ! p}"
      using r notin n(5) by simp
    then show "J s'" unfolding J_def using r(1) n(4) by (intro conjI exI[of _ "rest @ [qe_p nqe]"]) simp_all
  next
    note F = main_start_fields[OF vc]
    have "{int p |p. p < nvoxels dims \<and>
              (replicate (nvoxels dims) False)[nat (seed_index dims) := True] ! p}
          = {seed_index dims}"
    proof (intro set_eqI iffI)
      fix x assume "x \<in> {int p |p. p < nvoxels dims \<and>
              (replicate (nvoxels dims) False)[nat (seed_index dims) := True] ! p}"
      then obtain p where p: "x = int p" "p < nvoxels dims"
        "(replicate (nvoxels dims) False)[nat (seed_index dims) := True] ! p" by blast
      then have "p = nat (seed_index dims)" by (cases "p = nat (seed_index dims)") simp_all
      then show "x \<in> {seed_index dims}" using p(1) F(5) by simp
    next
      fix x assume "x \<in> {seed_index dims}"
      then show "x \<in> {int p |p. p < nvoxels dims \<and>
              (replicate (nvoxels dims) False)[nat (seed_index dims) := True] ! p}"
        using F(5,6) by (intro CollectI exI[of _ "nat (seed_index dims)"]) simp
    qed
    then show "J (main_start dims phaseIn magIn output B s0)"
      unfolding J_def F(1) F(3) by (intro conjI exI[of _ "[seed_index dims]"]) simp_all
  qed
  then show ?thesis unfolding J_def by blast
qed

lemma run_store_counts:
  assumes vc: "valid_call dims phaseIn magIn output B s0" and e: "stores s0 = []"
  shows "\<exists>s'. robustUnwrapMain dims phaseIn magIn output B s0 = Some (Inr s') \<and>
           hd (stores s') = 85 \<and> count_list (stores s') 85 = 2 \<and>
           (\<forall>p < nvoxels dims. p \<noteq> 85 \<longrightarrow> count_list (stores s') (int p) = 1)"
proof -
  from run_store_order[OF vc] obtain s' rest where
    s': "robustUnwrapMain dims phaseIn magIn output B s0 = Some (Inr s')"
    "stores s' = stores s0 @ 85 # rest" "distinct rest"
    "set rest = {int p |p. p < nvoxels dims \<and> flag s' ! p}" by blast
  from run_reaches_all[OF vc] s'(1) have all: "\<forall>p < nvoxels dims. flag s' ! p" by auto
  have n85: "85 < nvoxels dims" using vc by (auto simp: valid_call_def nvoxels_def)
  have mem: "int p \<in> set rest" if "p < nvoxels dims" for p
    using that all unfolding s'(4) by blast
  have one: "count_list rest (int p) = 1" if "p < nvoxels dims" for p
    using mem[OF that] s'(3) by (simp add: count_list_distinct)
  have "count_list rest 85 = 1" using one[OF n85] by simp
  then have "count_list (stores s') 85 = 2" by (simp add: s'(2) e)
  moreover have "\<forall>p < nvoxels dims. p \<noteq> 85 \<longrightarrow> count_list (stores s') (int p) = 1"
    using one by (simp add: s'(2) e)
  ultimately show ?thesis using s'(1) by (intro exI[of _ s']) (simp add: s'(2) e)
qed

section \<open>The claims\<close>

text \<open>
  C8. The record queue is first-in first-out under every interleaving of \<open>Push\<close> and
  \<open>Pop\<close>: run on a freshly initialised queue, any sequence of operations returns from its
  pops what a list used as a queue returns. In particular, pushing 150 records grows the
  queue (default capacity 100, increment 500) exactly once, to capacity 600, and 150 pops
  then return the records in the order in which they were pushed.
\<close>

theorem C8_queue_fifo_growth:
  "run_ops (InitQueue c) ops = spec_fifo [] ops \<and>
   (length xs = 150 \<longrightarrow>
      growth_events (InitQueue c) xs = 1 \<and>
      m_size (push_all (InitQueue c) xs) = 600 \<and>
      pop_n 150 (push_all (InitQueue c) xs) = map (\<lambda>x. (0, Some x)) xs)"
proof (intro conjI impI)
  show "run_ops (InitQueue c) ops = spec_fifo [] ops"
    using run_ops_fifo[OF qinv_InitQueue, of c ops] by (simp add: qcontents_InitQueue)
next
  assume l: "length xs = 150"
  then have "DEFAULTBLOCK \<le> length xs" "length xs < DEFAULTBLOCK + BLOCKINCREMENT"
    by (simp_all add: DEFAULTBLOCK_def BLOCKINCREMENT_def)
  from growth_scenario[OF this, of c] l
  show "growth_events (InitQueue c) xs = 1"
    "m_size (push_all (InitQueue c) xs) = 600"
    "pop_n 150 (push_all (InitQueue c) xs) = map (\<lambda>x. (0, Some x)) xs"
    by (simp_all add: DEFAULTBLOCK_def BLOCKINCREMENT_def)
qed

theorem C8_queue_fifo_growth_witness:
  "run_ops (InitQueue 4) [PushOp (1::nat), PushOp 2, PopOp, PopOp, PopOp]
     = [(0, Some 1), (0, Some 2), (1, None)] \<and>
   length (map int [0..<150]) = 150 \<and>
   growth_events (InitQueue 4) (map int [0..<150]) = 1 \<and>
   m_size (push_all (InitQueue 4) (map int [0..<150])) = 600 \<and>
   pop_n 150 (push_all (InitQueue 4) (map int [0..<150]))
     = map (\<lambda>x. (0, Some x)) (map int [0..<150])"
proof -
  have l: "length (map int [0..<150]) = 150" by simp
  have r: "spec_fifo [] [PushOp (1::nat), PushOp 2, PopOp, PopOp, PopOp]
     = [(0, Some 1), (0, Some 2), (1, None)]" by simp
  from C8_queue_fifo_growth[of 4 "[PushOp (1::nat), PushOp 2, PopOp, PopOp, PopOp]"]
  have a: "run_ops (InitQueue 4) [PushOp (1::nat), PushOp 2, PopOp, PopOp, PopOp]
     = [(0, Some 1), (0, Some 2), (1, None)]" unfolding r by blast
  from C8_queue_fifo_growth[of 4 "[]" "map int [0..<150]"] l
  have b: "growth_events (InitQueue 4) (map int [0..<150]) = 1 \<and>
   m_size (push_all (InitQueue 4) (map int [0..<150])) = 600 \<and>
   pop_n 150 (push_all (InitQueue 4) (map int [0..<150]))
     = map (\<lambda>x. (0, Some x)) (map int [0..<150])" by blast
  from a l b show ?thesis by blast
qed





text \<open>
  C4, as amended. For a field with at least one voxel and \<open>N \<ge> 2\<close> bins, the thresholds
  are \<open>N\<close> values in ascending order (not always strictly), from \<open>mn\<close>, the least of
  \<open>1e38\<close> and the risks, to \<open>mx + (mx - mn) / 100000\<close>, with \<open>mx\<close> the greatest of \<open>0\<close> and
  the risks. The last threshold is at least every risk of the field, so the forward scan,
  which starts only for a risk above threshold \<open>i\<close>, stops at an index below \<open>N\<close> and never
  reads past the last threshold.
\<close>

theorem C4_thresholds:
  assumes ne: "ms \<noteq> []" and N: "2 \<le> N" and mm: "minmax ms = (mn, mx)"
  shows "length (thresholds_of ms N) = N \<and> sorted (thresholds_of ms N) \<and>
         mn = Min (insert (10 ^ 38) (set ms)) \<and> mx = Max (insert 0 (set ms)) \<and>
         hd (thresholds_of ms N) = mn \<and>
         last (thresholds_of ms N) = mx + (mx - mn) / 100000 \<and>
         (\<forall>m \<in> set ms. m \<le> last (thresholds_of ms N)) \<and>
         (\<forall>m \<in> set ms. \<forall>i < N. thresholds_of ms N ! i < m \<longrightarrow>
            (\<exists>j. scan m (thresholds_of ms N) (Suc i) = Some j \<and> i < j \<and> j < N))"
proof -
  define diff where "diff = (100001 / 100000) * (mx - mn)"
  define thr where "thr = thresholds_of ms N"
  have thr: "thr = polefieldthresholds mn diff N"
    by (simp add: thr_def diff_def thresholds_of_eq[OF mm])
  have len: "length thr = N" by (simp add: thr length_thresholds)
  have d0: "0 \<le> diff" using minmax_le[OF ne mm] by (simp add: diff_def)
  have srt: "sorted thr"
    unfolding sorted_iff_nth_mono using thresholds_mono[OF d0] by (simp add: thr length_thresholds)
  have mnmx: "mn = Min (insert (10 ^ 38) (set ms))" "mx = Max (insert 0 (set ms))"
    using mm by (simp_all add: minmax_eq)
  have nthr: "thr \<noteq> []" using N len by auto
  then have "hd thr = thr ! 0" by (rule hd_conv_nth)
  then have hd: "hd thr = mn"
    using N nth_thresholds[of 0 N mn diff] by (simp add: thr)
  have lc: "last thr = thr ! (N - 1)" using nthr len by (simp add: last_conv_nth)
  have "last thr = mn + diff"
    unfolding lc using last_threshold[OF N, of mn diff] by (simp add: thr)
  moreover have "mn + diff = mx + (mx - mn) / 100000" by (simp add: diff_def field_simps)
  ultimately have lst: "last thr = mx + (mx - mn) / 100000" by simp
  have cov: "\<forall>m \<in> set ms. m \<le> last thr"
    using thresholds_of_cover[OF N] by (simp add: thr_def)
  have sc: "\<forall>m \<in> set ms. \<forall>i < N. thr ! i < m \<longrightarrow>
            (\<exists>j. scan m thr (Suc i) = Some j \<and> i < j \<and> j < N)"
  proof (intro ballI allI impI)
    fix m i assume m: "m \<in> set ms" and i: "i < N" and lt: "thr ! i < m"
    have l: "m \<le> thr ! (N - 1)" using cov m lc by simp
    with lt have "i \<noteq> N - 1" by auto
    with i have "Suc i \<le> N - 1" by simp
    moreover have "N - 1 < length thr" using N len by simp
    ultimately obtain k where "scan m thr (Suc i) = Some k" "Suc i \<le> k" "k \<le> N - 1"
      using scan_finds[of "Suc i" "N - 1" thr m] l by blast
    then show "\<exists>j. scan m thr (Suc i) = Some j \<and> i < j \<and> j < N"
      using N by (intro exI[of _ k]) simp
  qed
  show ?thesis
    using len srt mnmx hd lst cov sc unfolding thr_def by blast
qed

theorem C4_thresholds_witness:
  "[3, - 5, 1] \<noteq> ([] :: real list) \<and> (2::nat) \<le> 3 \<and> minmax [3, - 5, 1] = (- 5, 3) \<and>
   length (thresholds_of [3, - 5, 1] 3) = 3 \<and> sorted (thresholds_of [3, - 5, 1] 3) \<and>
   hd (thresholds_of [3, - 5, 1] 3) = - 5 \<and>
   last (thresholds_of [3, - 5, 1] 3) = 3 + (3 - (- 5)) / 100000"
proof -
  have mm: "minmax [3, - 5, 1] = (- 5, 3)" by (simp add: minmax_def)
  have ne: "[3, - 5, 1] \<noteq> ([] :: real list)" and N: "(2::nat) \<le> 3" by simp_all
  from C4_thresholds[OF ne N mm] mm show ?thesis by simp
qed

text \<open>
  C4 as stated fails where all risks are equal: for a field of zeros the thresholds are all
  zero, and the last one does not strictly exceed the risk.
\<close>

theorem C4_counterexample:
  "minmax [0, 0] = (0, 0) \<and> thresholds_of [0, 0] 2 = [0, 0] \<and>
   \<not> (0::real) < last (thresholds_of [0, 0] 2)"
proof -
  have mm: "minmax [0, 0] = (0, 0)" by (simp add: minmax_def)
  have "thresholds_of [0, 0] 2 = [0, 0]"
    by (simp add: thresholds_of_def mm polefieldthresholds_def upt_rec)
  with mm show ?thesis by simp
qed








text \<open>
  C1. The code stores twice into one entry of the output buffer. Line 227 stores into
  entry 85 whatever the grid, before the seed is stored, and the run later reaches voxel 85
  and stores into its entry again. On the example call, a line of 86 voxels with the seed at
  voxel 42, the first store of the run goes to entry 85 and entry 85 is stored to twice.
\<close>

theorem C1_entry_85_stored_twice:
  "seed_index (86, 1, 1) = 42 \<and>
   (\<exists>s'. robustUnwrapMain (86, 1, 1) 0 1 2 4 (blank_state example_heap) = Some (Inr s') \<and>
      hd (stores s') = 85 \<and> count_list (stores s') 85 = 2)"
proof -
  have vc: "valid_call (86, 1, 1) 0 1 2 4 (blank_state example_heap)"
    by (simp add: valid_call_def blank_state_def example_heap_def NUMQUEUES_def)
  have e: "stores (blank_state example_heap) = []" by (simp add: blank_state_def)
  have si: "seed_index (86, 1, 1) = 42" by (simp add: seed_index_def default_seed_def)
  from run_store_counts[OF vc e] si show ?thesis by blast
qed

text \<open>
  C2. The code reports a seed outside the grid and goes on. For a grid of 4 by 4 by 0 the
  seed on the last axis is \<open>- 1\<close>; the message is logged, \<open>unwrap\<close> is entered, line 227
  stores into entry 85 of the output buffer, and the run ends in the read of the phase at
  the offset \<open>- 11\<close> of the seed.
\<close>

theorem C2_run_starts_after_seed_error:
  "\<exists>s. robustUnwrapMain (4, 4, 0) 0 1 2 4 (blank_state zero_depth_heap)
          = Some (Inl (OutOfBounds Phase (- 11), s)) \<and>
        default_seed 0 = - 1 \<and>
        gerror_log s = [''The seed specified was outside the matrix bounds.''] \<and>
        stores s = [85] \<and> heap s ! 2 ! 85 = 1 / 2 \<and> zero_depth_heap ! 2 ! 85 = 0"
  by (simp add: robustUnwrapMain_def unwrap_def Let_def default_seed_def blank_state_def
      zero_depth_heap_def minmax_def rd_def wr_def store_unwrapped_def GERROR_def NUMQUEUES_def
      nth_append)

text \<open>
  C3. On the grid of 3 by 3 by 3 of Scenario A, with buffers of 27 values, the run reads
  the phase buffer at index 85 (line 227), outside the 27 voxels of the grid.
\<close>

theorem C3_index_85_outside_small_grid:
  "\<exists>s. robustUnwrapMain (3, 3, 3) 0 1 2 1 (blank_state scenario_A_heap)
          = Some (Inl (OutOfBounds Phase 85, s)) \<and> sze (main_globals (3, 3, 3) 0 2 (blank_state scenario_A_heap)) = 27"
  by (simp add: robustUnwrapMain_def unwrap_def Let_def default_seed_def blank_state_def
      scenario_A_heap_def minmax_eq rd_def NUMQUEUES_def main_globals_def)

end
